theory Spec2Isabelle
  imports Complex_Main
begin

unbundle bit_operations_syntax

section \<open>Hydrogen's disk writer driver (src/core/IO/DiskWriterDriver.cpp)\<close>

text \<open>
  The development embeds \<^verbatim>\<open>diskWriterDriver_thread\<close>, the worker that renders a song to an
  audio file: it selects a libsndfile format from the file name and the sample depth, checks
  it, opens the file, and then walks the columns of the song, pulling audio from the engine
  in chunks, clipping and interleaving it and writing it out, with one progress event per
  column.
\<close>

subsection \<open>The driver object\<close>

text \<open>
  The fields that the thread reads. The sample rate and the buffer size are \<^verbatim>\<open>unsigned\<close>, as
  the parameters of the constructor and of \<^verbatim>\<open>init\<close> that are stored in them, and the sample
  depth is an \<^verbatim>\<open>int\<close>; the two output buffers are part of the state of the audio engine
  below.
\<close>

record DiskWriterDriver =
  m_nSampleRate :: nat
  m_nSampleDepth :: int
  m_sFilename :: string
  m_nBufferSize :: nat

subsection \<open>Format selection (lines 72 to 104)\<close>

text \<open>\<^verbatim>\<open>QString::endsWith\<close> with its default, case-sensitive comparison.\<close>

definition endsWith :: "string \<Rightarrow> string \<Rightarrow> bool" where
  "endsWith s t = (length t \<le> length s \<and> drop (length s - length t) s = t)"

text \<open>The constants of \<^verbatim>\<open>sndfile.h\<close>; the source writes most of them as literals.\<close>

definition SF_FORMAT_WAV :: int where "SF_FORMAT_WAV = 0x010000"
definition SF_FORMAT_AIFF :: int where "SF_FORMAT_AIFF = 0x020000"
definition SF_FORMAT_FLAC :: int where "SF_FORMAT_FLAC = 0x170000"
definition SF_FORMAT_OGG :: int where "SF_FORMAT_OGG = 0x200000"
definition SF_FORMAT_PCM_S8 :: int where "SF_FORMAT_PCM_S8 = 0x0001"
definition SF_FORMAT_PCM_16 :: int where "SF_FORMAT_PCM_16 = 0x0002"
definition SF_FORMAT_PCM_24 :: int where "SF_FORMAT_PCM_24 = 0x0003"
definition SF_FORMAT_PCM_32 :: int where "SF_FORMAT_PCM_32 = 0x0004"
definition SF_FORMAT_PCM_U8 :: int where "SF_FORMAT_PCM_U8 = 0x0005"
definition SF_FORMAT_VORBIS :: int where "SF_FORMAT_VORBIS = 0x0060"
definition SF_FORMAT_SUBMASK :: int where "SF_FORMAT_SUBMASK = 0x0000FFFF"
definition SF_FORMAT_TYPEMASK :: int where "SF_FORMAT_TYPEMASK = 0x0FFF0000"

text \<open>
  The value the thread stores in \<^verbatim>\<open>soundInfo.format\<close>: the sequence of assignments to
  \<^verbatim>\<open>sfformat\<close> and \<^verbatim>\<open>bits\<close>, their bitwise or, and the final override for Ogg Vorbis.
\<close>

definition soundInfo_format :: "string \<Rightarrow> int \<Rightarrow> int" where
  "soundInfo_format sFilename nSampleDepth =
    (let sfformat = 0x010000;
         bits = 0x0002;
         sfformat = (if endsWith sFilename ''.aiff'' \<or> endsWith sFilename ''.AIFF''
                     then 0x020000 else sfformat);
         sfformat = (if endsWith sFilename ''.flac'' \<or> endsWith sFilename ''.FLAC''
                     then 0x170000 else sfformat);
         bits = (if nSampleDepth = 8 \<and>
                    (endsWith sFilename ''.aiff'' \<or> endsWith sFilename ''.AIFF'')
                 then 0x0001 else bits);
         bits = (if nSampleDepth = 8 \<and>
                    (endsWith sFilename ''.wav'' \<or> endsWith sFilename ''.WAV'')
                 then 0x0005 else bits);
         bits = (if nSampleDepth = 16 then 0x0002 else bits);
         bits = (if nSampleDepth = 24 then 0x0003 else bits);
         bits = (if nSampleDepth = 32 then 0x0004 else bits);
         fmt = sfformat OR bits
     in if endsWith sFilename ''.ogg'' \<or> endsWith sFilename ''.OGG''
        then SF_FORMAT_OGG OR SF_FORMAT_VORBIS else fmt)"

text \<open>The container and the sample encoding of a format word, as libsndfile reads them.\<close>

definition container :: "int \<Rightarrow> int" where
  "container fmt = fmt AND SF_FORMAT_TYPEMASK"

definition encoding :: "int \<Rightarrow> int" where
  "encoding fmt = fmt AND SF_FORMAT_SUBMASK"

text \<open>The selection table of the specification, for comparison with the code.\<close>

datatype extension_class = Ext_aiff | Ext_flac | Ext_ogg | Ext_wav | Ext_other

text \<open>The two spellings of each extension that the code looks for.\<close>

definition classify :: "string \<Rightarrow> extension_class" where
  "classify sFilename =
    (if endsWith sFilename ''.ogg'' \<or> endsWith sFilename ''.OGG'' then Ext_ogg
     else if endsWith sFilename ''.flac'' \<or> endsWith sFilename ''.FLAC'' then Ext_flac
     else if endsWith sFilename ''.aiff'' \<or> endsWith sFilename ''.AIFF'' then Ext_aiff
     else if endsWith sFilename ''.wav'' \<or> endsWith sFilename ''.WAV'' then Ext_wav
     else Ext_other)"

subsection \<open>Machine integers\<close>

text \<open>
  \<^verbatim>\<open>unsigned\<close> is a 32-bit word and \<^verbatim>\<open>int\<close> its two's complement reading. Unsigned values
  are natural numbers below \<open>2 ^ 32\<close> with the wrap-around written out; the two conversions
  are those of the implicit casts in the source.
\<close>

definition int_of_unsigned :: "nat \<Rightarrow> int" where
  "int_of_unsigned u = (if u mod 2 ^ 32 < 2 ^ 31 then int (u mod 2 ^ 32)
                        else int (u mod 2 ^ 32) - 2 ^ 32)"

definition unsigned_of_int :: "int \<Rightarrow> nat" where
  "unsigned_of_int i = nat (i mod 2 ^ 32)"

subsection \<open>Floating-point numbers\<close>

text \<open>
  \<^verbatim>\<open>float\<close> is IEEE 754 binary32 and \<^verbatim>\<open>double\<close> binary64, each operation evaluated in its own
  type and rounded to nearest, ties to even. A finite floating-point number is modelled by
  the real number it denotes; an operation computes the exact real result and rounds it to
  the precision of its type. The exponent range is not bounded: the quantities of this
  program (column counts, quotients of them, frame counts) are far from overflow and
  underflow. Infinities and NaN are not values of the model; where the source would produce
  one, the model has no result.
\<close>

text \<open>Rounding a real number to the nearest integer, ties to the even one.\<close>

definition rne :: "real \<Rightarrow> int" where
  "rne x = (let f = \<lfloor>x\<rfloor>; r = x - of_int f
            in if r < 1 / 2 then f
               else if 1 / 2 < r then f + 1
               else if even f then f else f + 1)"

text \<open>
  The binary exponent \<open>e\<close> of a non-zero number, \<open>2 ^ e \<le> \<bar>x\<bar> < 2 ^ (e + 1)\<close>, found by
  doubling or halving a positive number until it lies between 1 and 2.
\<close>

function ilog2 :: "real \<Rightarrow> int" where
  "ilog2 x =
    (if x \<le> 0 then 0
     else if x < 1 then ilog2 (2 * x) - 1
     else if 2 \<le> x then ilog2 (x / 2) + 1
     else 0)"
  by pat_completeness auto
termination
proof (relation "measure (\<lambda>x. if x < 1 then nat \<lfloor>- log 2 x\<rfloor> + 1 else nat \<lfloor>log 2 x\<rfloor>)")
  show "wf (measure (\<lambda>x::real. if x < 1 then nat \<lfloor>- log 2 x\<rfloor> + 1 else nat \<lfloor>log 2 x\<rfloor>))"
    by simp
next
  fix x :: real
  assume x: "\<not> x \<le> 0" "x < 1"
  then have l: "log 2 (2 * x) = 1 + log 2 x" by (simp add: log_mult)
  show "(2 * x, x) \<in> measure (\<lambda>x. if x < 1 then nat \<lfloor>- log 2 x\<rfloor> + 1 else nat \<lfloor>log 2 x\<rfloor>)"
  proof (cases "2 * x < 1")
    case True
    with x have "log 2 (2 * x) < 0" by simp
    with l have "1 < - log 2 x" by simp
    then have "1 \<le> \<lfloor>- log 2 x\<rfloor>" by (simp add: le_floor_iff)
    moreover have "\<lfloor>- log 2 (2 * x)\<rfloor> = \<lfloor>- log 2 x\<rfloor> - 1"
      unfolding l by (simp add: algebra_simps) linarith
    ultimately show ?thesis using True x by simp
  next
    case False
    with x have "log 2 (2 * x) < 1" by (simp add: log_less_iff)
    then have "\<lfloor>log 2 (2 * x)\<rfloor> \<le> 0" by (simp add: floor_le_iff)
    with False x show ?thesis by simp
  qed
next
  fix x :: real
  assume x: "\<not> x \<le> 0" "\<not> x < 1" "2 \<le> x"
  then have l: "log 2 (x / 2) = log 2 x - 1" by (simp add: log_divide)
  from x have "1 \<le> log 2 x" by (simp add: le_log_iff)
  then have "1 \<le> \<lfloor>log 2 x\<rfloor>" by (simp add: le_floor_iff)
  moreover have "\<lfloor>log 2 (x / 2)\<rfloor> = \<lfloor>log 2 x\<rfloor> - 1" unfolding l by simp
  ultimately show "(x / 2, x) \<in> measure (\<lambda>x. if x < 1 then nat \<lfloor>- log 2 x\<rfloor> + 1 else nat \<lfloor>log 2 x\<rfloor>)"
    using x by simp
qed

declare ilog2.simps [simp del]

definition bexp :: "real \<Rightarrow> int" where
  "bexp x = ilog2 \<bar>x\<bar>"

text \<open>Rounding to a significand of \<open>p\<close> bits.\<close>

definition fround :: "nat \<Rightarrow> real \<Rightarrow> real" where
  "fround p x =
    (if x = 0 then 0
     else let e = bexp x - (int p - 1)
          in of_int (rne (x / 2 powi e)) * 2 powi e)"

definition f32 :: "real \<Rightarrow> real" where
  "f32 = fround 24"

definition f64 :: "real \<Rightarrow> real" where
  "f64 = fround 53"

text \<open>Conversion of a floating-point value to an integer type discards the fraction.\<close>

definition trunc :: "real \<Rightarrow> int" where
  "trunc x = (if 0 \<le> x then \<lfloor>x\<rfloor> else \<lceil>x\<rceil>)"

text \<open>
  The conversion is undefined in C++ when the truncated value does not fit the target type;
  the model then has no result.
\<close>

definition float_to_unsigned :: "real \<Rightarrow> nat option" where
  "float_to_unsigned x = (if - 1 < x \<and> x < 2 ^ 32 then Some (nat (trunc x)) else None)"

definition float_to_int :: "real \<Rightarrow> int option" where
  "float_to_int x = (if - (2 ^ 31) - 1 < x \<and> x < 2 ^ 31 then Some (trunc x) else None)"

subsection \<open>The song and the collaborators of the thread\<close>

text \<open>
  A column of the song (a \<^verbatim>\<open>PatternList\<close>) is the list of the lengths, in ticks, of its
  patterns. \<open>getBpmAtColumn\<close> stands for \<^verbatim>\<open>AudioEngine::getBpmAtColumn\<close>, which reads the
  tempo of the song at a column.
\<close>

record Song =
  getPatternGroupVector :: "int list list"
  getResolution :: int
  getBpmAtColumn :: "nat \<Rightarrow> real"

text \<open>
  Modelled from the spec: \<^verbatim>\<open>PatternList::longest_pattern_length\<close>, whose source is not at
  hand; the specification calls it the longest pattern length in the group. The thread calls
  it for non-empty columns only.
\<close>

definition longest_pattern_length :: "int list \<Rightarrow> int" where
  "longest_pattern_length pColumn = Max (set pColumn)"

text \<open>
  Modelled from the spec: \<^verbatim>\<open>AudioEngine::computeTickSize\<close>, whose source is not at hand;
  the specification gives \<open>ticksize = sampleRate * 60 / (bpm * resolution)\<close> as a
  floating-point value. There is no finite value when the divisor is zero.
\<close>

definition computeTickSize :: "nat \<Rightarrow> real \<Rightarrow> int \<Rightarrow> real option" where
  "computeTickSize nSampleRate fBpm nResolution =
    (if fBpm * of_int nResolution = 0 then None
     else Some (f32 (real nSampleRate * 60 / (fBpm * of_int nResolution))))"

record SF_INFO =
  samplerate :: int
  channels :: int
  format :: int

text \<open>
  What the thread does to the outside, in the order in which it does it: progress events
  pushed to the event queue, log lines, the start of the transport, each call of the
  process callback with its status, and the calls of libsndfile with the handle (\<open>True\<close>
  for a handle that is not null), the frames passed and the result.
\<close>

datatype effect =
    Progress int
  | InfoLog string
  | ErrorLog string
  | Play
  | Callback nat int
  | Open string SF_INFO bool
  | Writef bool "real list" int int
  | Close bool

text \<open>
  The collaborators. The audio engine has a state \<open>'w\<close> of its own, which \<open>play\<close> and the
  process callback change and in which the two output buffers of the driver are read; the
  sound file library has a state \<open>'f\<close>. \<open>MAX_NOTES\<close> is the constant of the same name, whose
  definition is not at hand. The output buffers are read at any index: the thread reads
  them below the size of a chunk only, which is at most the buffer size with which
  \<^verbatim>\<open>connect\<close> allocates them.
\<close>

record ('w, 'f) externals =
  play :: "'w \<Rightarrow> 'w"
  m_processCallback :: "nat \<Rightarrow> 'w \<Rightarrow> int \<times> 'w"
  m_pOut_L :: "'w \<Rightarrow> nat \<Rightarrow> real"
  m_pOut_R :: "'w \<Rightarrow> nat \<Rightarrow> real"
  sf_format_check :: "SF_INFO \<Rightarrow> bool"
  sf_open :: "string \<Rightarrow> SF_INFO \<Rightarrow> 'f \<Rightarrow> bool \<times> 'f"
  sf_writef_float :: "bool \<Rightarrow> real list \<Rightarrow> int \<Rightarrow> 'f \<Rightarrow> int \<times> 'f"
  sf_close :: "bool \<Rightarrow> 'f \<Rightarrow> 'f"
  MAX_NOTES :: int

record ('w, 'f) state =
  world :: 'w
  sink :: 'f
  pData :: "real list"
  trace :: "effect list"

definition emit :: "effect \<Rightarrow> ('w, 'f) state \<Rightarrow> ('w, 'f) state" where
  "emit e s = s\<lparr>trace := trace s @ [e]\<rparr>"

subsection \<open>The frames of a column (lines 165 to 177)\<close>

definition column_frames ::
  "('w, 'f) externals \<Rightarrow> DiskWriterDriver \<Rightarrow> Song \<Rightarrow> nat \<Rightarrow> nat option" where
  "column_frames ext pDriver pSong patternPosition =
    (let pColumn = getPatternGroupVector pSong ! patternPosition;
         nPatternSize = (if length pColumn \<noteq> 0 then longest_pattern_length pColumn
                         else MAX_NOTES ext);
         fBpm = getBpmAtColumn pSong patternPosition
     in case computeTickSize (m_nSampleRate pDriver) fBpm (getResolution pSong) of
          None \<Rightarrow> None
        | Some fTicksize \<Rightarrow> float_to_unsigned (f32 (fTicksize * f32 (of_int nPatternSize))))"

subsection \<open>Pulling a chunk (lines 195 to 198)\<close>

text \<open>
  The callback is called until it returns 0. Nothing bounds the number of calls: the
  function has no result when the callback never returns 0.
\<close>

partial_function (option) pull ::
  "('w, 'f) externals \<Rightarrow> nat \<Rightarrow> ('w, 'f) state \<Rightarrow> ('w, 'f) state option" where
  "pull ext nFrames s =
    (case m_processCallback ext nFrames (world s) of
       (ret, w) \<Rightarrow>
         let s = emit (Callback nFrames ret) (s\<lparr>world := w\<rparr>)
         in if ret \<noteq> 0 then pull ext nFrames s else Some s)"

subsection \<open>Clipping and interleaving (lines 200 to 220)\<close>

text \<open>
  A store into the array \<^verbatim>\<open>pData\<close>, here \<open>a\<close>; outside the array the behaviour is undefined.
\<close>

definition store :: "real list \<Rightarrow> nat \<Rightarrow> real \<Rightarrow> real list option" where
  "store a k v = (if k < length a then Some (a[k := v]) else None)"

function interleave ::
  "(nat \<Rightarrow> real) \<Rightarrow> (nat \<Rightarrow> real) \<Rightarrow> nat \<Rightarrow> nat \<Rightarrow> real list \<Rightarrow> real list option" where
  "interleave pData_L pData_R usedBuffer i a =
    (if i < usedBuffer then
       case store a ((i * 2) mod 2 ^ 32)
              (if pData_L i > 1 then 1 else if pData_L i < - 1 then - 1 else pData_L i) of
         None \<Rightarrow> None
       | Some a \<Rightarrow>
           (case store a ((i * 2 + 1) mod 2 ^ 32)
                   (if pData_R i > 1 then 1 else if pData_R i < - 1 then - 1 else pData_R i) of
              None \<Rightarrow> None
            | Some a \<Rightarrow> interleave pData_L pData_R usedBuffer (i + 1) a)
     else Some a)"
  by pat_completeness auto
termination
  by (relation "measure (\<lambda>(L, R, n, i, a). n - i)") auto

declare interleave.simps [simp del]

subsection \<open>Writing a chunk (lines 221 to 224)\<close>

text \<open>
  \<open>m_file\<close> tells whether the handle returned by \<^verbatim>\<open>sf_open\<close> is not null. The library
  reads two samples for each frame from the array \<open>a\<close>. A result other than the number of
  frames is logged, and nothing else is done about it.
\<close>

definition write_chunk ::
  "('w, 'f) externals \<Rightarrow> bool \<Rightarrow> real list \<Rightarrow> int \<Rightarrow> ('w, 'f) state \<Rightarrow> ('w, 'f) state" where
  "write_chunk ext m_file a usedBuffer s =
    (case sf_writef_float ext m_file (take (2 * nat usedBuffer) a) usedBuffer (sink s) of
       (res, f) \<Rightarrow>
         let s = emit (Writef m_file (take (2 * nat usedBuffer) a) usedBuffer res)
                   (s\<lparr>pData := a, sink := f\<rparr>)
         in if res \<noteq> usedBuffer
            then emit (ErrorLog ''Error during sf_write_float'') s else s)"

subsection \<open>The chunks of a column (lines 178 to 225)\<close>

text \<open>The loop need not end: with a buffer size of 0 the frame number never advances.\<close>

partial_function (option) chunk_loop ::
  "('w, 'f) externals \<Rightarrow> DiskWriterDriver \<Rightarrow> bool \<Rightarrow> nat \<Rightarrow> nat \<Rightarrow> ('w, 'f) state
    \<Rightarrow> ('w, 'f) state option" where
  "chunk_loop ext pDriver m_file patternLengthInFrames frameNumber s =
    (if frameNumber < patternLengthInFrames then
       let usedBuffer = int_of_unsigned (m_nBufferSize pDriver);
           usedBuffer = (if patternLengthInFrames - frameNumber < m_nBufferSize pDriver
                         then int_of_unsigned (patternLengthInFrames - frameNumber)
                         else usedBuffer);
           frameNumber = (frameNumber + unsigned_of_int usedBuffer) mod 2 ^ 32
       in case pull ext (unsigned_of_int usedBuffer) s of
            None \<Rightarrow> None
          | Some s \<Rightarrow>
              (case interleave (m_pOut_L ext (world s)) (m_pOut_R ext (world s))
                      (unsigned_of_int usedBuffer) 0 (pData s) of
                 None \<Rightarrow> None
               | Some a \<Rightarrow>
                   chunk_loop ext pDriver m_file patternLengthInFrames frameNumber
                     (write_chunk ext m_file a usedBuffer s))
     else Some s)"

subsection \<open>The progress value (line 228)\<close>

text \<open>
  The quotient of the two \<^verbatim>\<open>float\<close> conversions is a \<^verbatim>\<open>float\<close>; the product with the
  \<^verbatim>\<open>double\<close> constant 100.0 is a \<^verbatim>\<open>double\<close>, rounded to \<^verbatim>\<open>float\<close> by the assignment.
\<close>

definition fPercent :: "nat \<Rightarrow> nat \<Rightarrow> real" where
  "fPercent patternPosition nColumns =
    f32 (f64 (f32 (f32 (real (patternPosition + 1)) / f32 (real nColumns)) * 100))"

subsection \<open>The columns of the song (lines 162 to 230)\<close>

function column_loop ::
  "('w, 'f) externals \<Rightarrow> DiskWriterDriver \<Rightarrow> Song \<Rightarrow> bool \<Rightarrow> nat \<Rightarrow> ('w, 'f) state
    \<Rightarrow> ('w, 'f) state option" where
  "column_loop ext pDriver pSong m_file patternPosition s =
    (let nColumns = length (getPatternGroupVector pSong)
     in if patternPosition < nColumns then
          case column_frames ext pDriver pSong patternPosition of
            None \<Rightarrow> None
          | Some patternLengthInFrames \<Rightarrow>
              (case chunk_loop ext pDriver m_file patternLengthInFrames 0 s of
                 None \<Rightarrow> None
               | Some s \<Rightarrow>
                   (case float_to_int (fPercent patternPosition nColumns) of
                      None \<Rightarrow> None
                    | Some percent \<Rightarrow>
                        column_loop ext pDriver pSong m_file (patternPosition + 1)
                          (emit (Progress percent) s)))
        else Some s)"
  by pat_completeness auto
termination
  by (relation "measure (\<lambda>(ext, d, g, m, p, s). length (getPatternGroupVector g) - p)") auto

declare column_loop.simps [simp del]

subsection \<open>The thread (lines 54 to 240)\<close>

text \<open>
  The thread returns a null pointer on both of its exits; the model tells them apart. There
  is no result when a loop does not end or the behaviour is undefined.
\<close>

datatype exit = Finished | SoundInfoError

definition diskWriterDriver_thread ::
  "('w, 'f) externals \<Rightarrow> DiskWriterDriver \<Rightarrow> Song \<Rightarrow> 'w \<Rightarrow> 'f
    \<Rightarrow> (exit \<times> ('w, 'f) state) option" where
  "diskWriterDriver_thread ext pDriver pSong w f =
    (let s = \<lparr>world = w, sink = f, pData = [], trace = []\<rparr>;
         s = emit (Progress 0) s;
         s = emit (InfoLog ''DiskWriterDriver thread start'') s;
         s = emit Play (s\<lparr>world := play ext (world s)\<rparr>);
         soundInfo = \<lparr>samplerate = int_of_unsigned (m_nSampleRate pDriver), channels = 2,
                      format = soundInfo_format (m_sFilename pDriver) (m_nSampleDepth pDriver)\<rparr>
     in if \<not> sf_format_check ext soundInfo
        then Some (SoundInfoError, emit (ErrorLog ''Error in soundInfo'') s)
        else
          case sf_open ext (m_sFilename pDriver) soundInfo (sink s) of
            (m_file, f) \<Rightarrow>
              let s = emit (Open (m_sFilename pDriver) soundInfo m_file) (s\<lparr>sink := f\<rparr>);
                  s = s\<lparr>pData := replicate ((m_nBufferSize pDriver * 2) mod 2 ^ 32) 0\<rparr>
              in (case column_loop ext pDriver pSong m_file 0 s of
                    None \<Rightarrow> None
                  | Some s \<Rightarrow>
                      let s = emit (Close m_file) (s\<lparr>sink := sf_close ext m_file (sink s)\<rparr>);
                          s = emit (InfoLog ''DiskWriterDriver thread end'') s
                      in Some (Finished, s)))"

subsection \<open>The thread, observed while it runs\<close>

text \<open>
  Two loops of the thread need not end, and the behaviour of a conversion or of a store may
  be undefined; the functions above have no result then. The functions of this section are
  the same code with every loop cut off after a number of rounds, and they tell what has
  been done so far: the code has returned, or it has met undefined behaviour, or it is
  still running, in each case with the state reached.
\<close>

datatype ('a, 's) run = Returned 'a 's | Undefined 's | Running 's

fun state_of :: "('a, 's) run \<Rightarrow> 's" where
  "state_of (Returned x s) = s"
| "state_of (Undefined s) = s"
| "state_of (Running s) = s"

text \<open>Lines 195 to 198, with at most \<open>fuel\<close> calls of the callback.\<close>

fun pull_upto ::
  "nat \<Rightarrow> ('w, 'f) externals \<Rightarrow> nat \<Rightarrow> ('w, 'f) state \<Rightarrow> (unit, ('w, 'f) state) run" where
  "pull_upto 0 ext nFrames s = Running s"
| "pull_upto (Suc fuel) ext nFrames s =
    (case m_processCallback ext nFrames (world s) of
       (ret, w) \<Rightarrow>
         let s = emit (Callback nFrames ret) (s\<lparr>world := w\<rparr>)
         in if ret \<noteq> 0 then pull_upto fuel ext nFrames s else Returned () s)"

text \<open>
  Lines 178 to 225, with at most \<open>fuel\<close> rounds of the loop and at most \<open>calls\<close> calls of the
  callback in each of them.
\<close>

fun chunk_loop_upto ::
  "nat \<Rightarrow> nat \<Rightarrow> ('w, 'f) externals \<Rightarrow> DiskWriterDriver \<Rightarrow> bool \<Rightarrow> nat \<Rightarrow> nat \<Rightarrow> ('w, 'f) state
    \<Rightarrow> (unit, ('w, 'f) state) run" where
  "chunk_loop_upto calls 0 ext pDriver m_file patternLengthInFrames frameNumber s =
    (if frameNumber < patternLengthInFrames then Running s else Returned () s)"
| "chunk_loop_upto calls (Suc fuel) ext pDriver m_file patternLengthInFrames frameNumber s =
    (if frameNumber < patternLengthInFrames then
       let usedBuffer = int_of_unsigned (m_nBufferSize pDriver);
           usedBuffer = (if patternLengthInFrames - frameNumber < m_nBufferSize pDriver
                         then int_of_unsigned (patternLengthInFrames - frameNumber)
                         else usedBuffer);
           frameNumber = (frameNumber + unsigned_of_int usedBuffer) mod 2 ^ 32
       in case pull_upto calls ext (unsigned_of_int usedBuffer) s of
            Returned u s \<Rightarrow>
              (case interleave (m_pOut_L ext (world s)) (m_pOut_R ext (world s))
                      (unsigned_of_int usedBuffer) 0 (pData s) of
                 None \<Rightarrow> Undefined s
               | Some a \<Rightarrow>
                   chunk_loop_upto calls fuel ext pDriver m_file patternLengthInFrames frameNumber
                     (write_chunk ext m_file a usedBuffer s))
          | Undefined s \<Rightarrow> Undefined s
          | Running s \<Rightarrow> Running s
     else Returned () s)"

text \<open>
  Lines 162 to 230. The loop over the columns ends by itself; \<open>fuel\<close> bounds the loops
  inside it.
\<close>

function column_loop_upto ::
  "nat \<Rightarrow> ('w, 'f) externals \<Rightarrow> DiskWriterDriver \<Rightarrow> Song \<Rightarrow> bool \<Rightarrow> nat \<Rightarrow> ('w, 'f) state
    \<Rightarrow> (unit, ('w, 'f) state) run" where
  "column_loop_upto fuel ext pDriver pSong m_file patternPosition s =
    (let nColumns = length (getPatternGroupVector pSong)
     in if patternPosition < nColumns then
          case column_frames ext pDriver pSong patternPosition of
            None \<Rightarrow> Undefined s
          | Some patternLengthInFrames \<Rightarrow>
              (case chunk_loop_upto fuel fuel ext pDriver m_file patternLengthInFrames 0 s of
                 Returned u s \<Rightarrow>
                   (case float_to_int (fPercent patternPosition nColumns) of
                      None \<Rightarrow> Undefined s
                    | Some percent \<Rightarrow>
                        column_loop_upto fuel ext pDriver pSong m_file (patternPosition + 1)
                          (emit (Progress percent) s))
               | Undefined s \<Rightarrow> Undefined s
               | Running s \<Rightarrow> Running s)
        else Returned () s)"
  by pat_completeness auto
termination
  by (relation "measure (\<lambda>(n, ext, d, g, m, p, s). length (getPatternGroupVector g) - p)") auto

declare column_loop_upto.simps [simp del]

text \<open>Lines 54 to 240.\<close>

definition thread_upto ::
  "nat \<Rightarrow> ('w, 'f) externals \<Rightarrow> DiskWriterDriver \<Rightarrow> Song \<Rightarrow> 'w \<Rightarrow> 'f
    \<Rightarrow> (exit, ('w, 'f) state) run" where
  "thread_upto fuel ext pDriver pSong w f =
    (let s = \<lparr>world = w, sink = f, pData = [], trace = []\<rparr>;
         s = emit (Progress 0) s;
         s = emit (InfoLog ''DiskWriterDriver thread start'') s;
         s = emit Play (s\<lparr>world := play ext (world s)\<rparr>);
         soundInfo = \<lparr>samplerate = int_of_unsigned (m_nSampleRate pDriver), channels = 2,
                      format = soundInfo_format (m_sFilename pDriver) (m_nSampleDepth pDriver)\<rparr>
     in if \<not> sf_format_check ext soundInfo
        then Returned SoundInfoError (emit (ErrorLog ''Error in soundInfo'') s)
        else
          case sf_open ext (m_sFilename pDriver) soundInfo (sink s) of
            (m_file, f) \<Rightarrow>
              let s = emit (Open (m_sFilename pDriver) soundInfo m_file) (s\<lparr>sink := f\<rparr>);
                  s = s\<lparr>pData := replicate ((m_nBufferSize pDriver * 2) mod 2 ^ 32) 0\<rparr>
              in (case column_loop_upto fuel ext pDriver pSong m_file 0 s of
                    Returned u s \<Rightarrow>
                      let s = emit (Close m_file) (s\<lparr>sink := sf_close ext m_file (sink s)\<rparr>);
                          s = emit (InfoLog ''DiskWriterDriver thread end'') s
                      in Returned Finished s
                  | Undefined s \<Rightarrow> Undefined s
                  | Running s \<Rightarrow> Running s))"

section \<open>Notions of the specification\<close>

subsection \<open>The format table\<close>

text \<open>
  The table of the specification: the container is chosen by the extension, compared without
  regard to case, and the encoding by the depth, except for Ogg Vorbis.
\<close>

definition lower :: "char \<Rightarrow> char" where
  "lower c =
    (case map_of (zip ''ABCDEFGHIJKLMNOPQRSTUVWXYZ'' ''abcdefghijklmnopqrstuvwxyz'') c of
       Some l \<Rightarrow> l
     | None \<Rightarrow> c)"

definition spec_container :: "string \<Rightarrow> int" where
  "spec_container sFilename =
    (let e = map lower sFilename
     in if endsWith e ''.aiff'' then SF_FORMAT_AIFF
        else if endsWith e ''.flac'' then SF_FORMAT_FLAC
        else if endsWith e ''.ogg'' then SF_FORMAT_OGG
        else SF_FORMAT_WAV)"

definition spec_encoding :: "int \<Rightarrow> int \<Rightarrow> int" where
  "spec_encoding c nSampleDepth =
    (if c = SF_FORMAT_OGG then SF_FORMAT_VORBIS
     else if nSampleDepth = 8
          then (if c = SF_FORMAT_AIFF then SF_FORMAT_PCM_S8 else SF_FORMAT_PCM_U8)
     else if nSampleDepth = 24 then SF_FORMAT_PCM_24
     else if nSampleDepth = 32 then SF_FORMAT_PCM_32
     else SF_FORMAT_PCM_16)"

text \<open>The encoding that the code takes from the depth alone.\<close>

definition depth_encoding :: "int \<Rightarrow> int" where
  "depth_encoding nSampleDepth =
    (if nSampleDepth = 32 then SF_FORMAT_PCM_32
     else if nSampleDepth = 24 then SF_FORMAT_PCM_24
     else SF_FORMAT_PCM_16)"

subsection \<open>Clamping\<close>

definition clamp :: "real \<Rightarrow> real" where
  "clamp x = max (- 1) (min 1 x)"

subsection \<open>Floating-point numbers of a given precision\<close>

text \<open>The numbers with a significand of \<open>p\<close> bits: rounding leaves them as they are.\<close>

definition representable :: "nat \<Rightarrow> real \<Rightarrow> bool" where
  "representable p r \<longleftrightarrow> (\<exists>m k. r = of_int m * 2 powi k \<and> \<bar>m\<bar> < 2 ^ p)"

subsection \<open>What a trace shows\<close>

text \<open>The frame counts of the calls of the callback that returned 0, in order.\<close>

fun pulled_of :: "effect \<Rightarrow> nat list" where
  "pulled_of (Callback n ret) = (if ret = 0 then [n] else [])"
| "pulled_of _ = []"

definition pulled :: "effect list \<Rightarrow> nat list" where
  "pulled tr = concat (map pulled_of tr)"

text \<open>The values of the progress events, in order.\<close>

fun progress_of :: "effect \<Rightarrow> int list" where
  "progress_of (Progress v) = [v]"
| "progress_of _ = []"

definition progress :: "effect list \<Rightarrow> int list" where
  "progress tr = concat (map progress_of tr)"

subsection \<open>The chunks of a column\<close>

text \<open>
  The chunks of the specification, as pairs of an offset and a length: while fewer frames
  are rendered than the column has, the next chunk starts at the frames rendered so far and
  has the buffer size or what is left of the column, whichever is smaller.
\<close>

function frame_chunks :: "nat \<Rightarrow> nat \<Rightarrow> nat \<Rightarrow> (nat \<times> nat) list" where
  "frame_chunks bufferSize frames rendered =
    (if rendered < frames \<and> 0 < bufferSize
     then (rendered, min bufferSize (frames - rendered)) #
          frame_chunks bufferSize frames (rendered + min bufferSize (frames - rendered))
     else [])"
  by pat_completeness auto
termination
  by (relation "measure (\<lambda>(b, f, r). f - r)") auto

declare frame_chunks.simps [simp del]

text \<open>The frames of a column, 0 where the code computes none.\<close>

definition frames_of :: "('w, 'f) externals \<Rightarrow> DiskWriterDriver \<Rightarrow> Song \<Rightarrow> nat \<Rightarrow> nat" where
  "frames_of ext d g p = (case column_frames ext d g p of Some F \<Rightarrow> F | None \<Rightarrow> 0)"

subsection \<open>Runs that differ in the sound file only\<close>

text \<open>
  The view of a trace that shows nothing of what the sound file library returned: handles
  and results of writes are replaced by those of a complete write to an open file, and the
  log lines about incomplete writes are left out.
\<close>

fun view_of :: "effect \<Rightarrow> effect list" where
  "view_of (Writef h a n res) = [Writef True a n n]"
| "view_of (ErrorLog l) = (if l = ''Error during sf_write_float'' then [] else [ErrorLog l])"
| "view_of (Open name info h) = [Open name info True]"
| "view_of (Close h) = [Close True]"
| "view_of e = [e]"

definition view :: "effect list \<Rightarrow> effect list" where
  "view tr = concat (map view_of tr)"

definition sim :: "('w, 'f) state \<Rightarrow> ('w, 'g) state \<Rightarrow> bool" where
  "sim s s' \<longleftrightarrow> world s = world s' \<and> pData s = pData s' \<and> view (trace s) = view (trace s')"

text \<open>Two sets of collaborators with the same audio engine and the same format check.\<close>

definition same_engine :: "('w, 'f) externals \<Rightarrow> ('w, 'g) externals \<Rightarrow> bool" where
  "same_engine ext ext' \<longleftrightarrow>
     play ext = play ext' \<and> m_processCallback ext = m_processCallback ext' \<and>
     m_pOut_L ext = m_pOut_L ext' \<and> m_pOut_R ext = m_pOut_R ext' \<and>
     sf_format_check ext = sf_format_check ext' \<and> MAX_NOTES ext = MAX_NOTES ext'"

subsection \<open>The beginning of a run\<close>

text \<open>The description of the sound file that the thread fills in at lines 68 to 104.\<close>

definition soundInfo_of :: "DiskWriterDriver \<Rightarrow> SF_INFO" where
  "soundInfo_of pDriver =
    \<lparr>samplerate = int_of_unsigned (m_nSampleRate pDriver), channels = 2,
     format = soundInfo_format (m_sFilename pDriver) (m_nSampleDepth pDriver)\<rparr>"

text \<open>A state that has done what another one has done, and maybe more.\<close>

definition extends :: "('w, 'f) state \<Rightarrow> ('w, 'f) state \<Rightarrow> bool" where
  "extends s t \<longleftrightarrow> (\<exists>rest. trace t = trace s @ rest)"

subsection \<open>The effects of the loops\<close>

text \<open>
  What the loop over the chunks of a column may do, given the handle: call the callback,
  write with that handle, and log an incomplete write. The loop over the columns may also
  push progress events.
\<close>

fun chunk_effect :: "bool \<Rightarrow> effect \<Rightarrow> bool" where
  "chunk_effect m (Callback n ret) = True"
| "chunk_effect m (Writef h a n res) = (h = m)"
| "chunk_effect m (ErrorLog l) = (l = ''Error during sf_write_float'')"
| "chunk_effect m e = False"

fun column_effect :: "bool \<Rightarrow> effect \<Rightarrow> bool" where
  "column_effect m (Progress v) = True"
| "column_effect m e = chunk_effect m e"

subsection \<open>The frames of a group\<close>

text \<open>
  The length of a group in ticks, which is the longest pattern length of the group or the
  default length when the group has no pattern.
\<close>

definition group_length :: "('w, 'f) externals \<Rightarrow> Song \<Rightarrow> nat \<Rightarrow> int" where
  "group_length ext pSong position =
    (if getPatternGroupVector pSong ! position = [] then MAX_NOTES ext
     else Max (set (getPatternGroupVector pSong ! position)))"

text \<open>
  The tick size and the frames of a group as the specification gives them:
  \<open>ticksize = sampleRate * 60 / (bpm * resolution)\<close> at the tempo of the position of the
  group, and \<open>frames = floor (ticksize * length)\<close>.
\<close>

definition spec_ticksize :: "DiskWriterDriver \<Rightarrow> Song \<Rightarrow> nat \<Rightarrow> real" where
  "spec_ticksize pDriver pSong position =
    real (m_nSampleRate pDriver) * 60 /
      (getBpmAtColumn pSong position * of_int (getResolution pSong))"

definition spec_frames :: "('w, 'f) externals \<Rightarrow> DiskWriterDriver \<Rightarrow> Song \<Rightarrow> nat \<Rightarrow> int" where
  "spec_frames ext pDriver pSong position =
    \<lfloor>spec_ticksize pDriver pSong position * of_int (group_length ext pSong position)\<rfloor>"

text \<open>
  The same two quantities in the arithmetic of the source: the tick size is rounded to a
  \<^verbatim>\<open>float\<close>, the length is converted to a \<^verbatim>\<open>float\<close>, their product is rounded to a \<^verbatim>\<open>float\<close>,
  and the frames are the integer part of that product.
\<close>

definition group_ticksize :: "DiskWriterDriver \<Rightarrow> Song \<Rightarrow> nat \<Rightarrow> real" where
  "group_ticksize pDriver pSong position =
    f32 (real (m_nSampleRate pDriver) * 60 /
         (getBpmAtColumn pSong position * of_int (getResolution pSong)))"

definition float_frames :: "('w, 'f) externals \<Rightarrow> DiskWriterDriver \<Rightarrow> Song \<Rightarrow> nat \<Rightarrow> nat" where
  "float_frames ext pDriver pSong position =
    nat \<lfloor>f32 (group_ticksize pDriver pSong position *
              f32 (of_int (group_length ext pSong position)))\<rfloor>"

text \<open>
  A song that can be rendered: the resolution and every tempo are positive, no group has a
  negative length, and the frames of every group fit an \<^verbatim>\<open>unsigned\<close>.
\<close>

definition renderable :: "('w, 'f) externals \<Rightarrow> DiskWriterDriver \<Rightarrow> Song \<Rightarrow> bool" where
  "renderable ext pDriver pSong \<longleftrightarrow>
     0 < getResolution pSong \<and>
     (\<forall>position < length (getPatternGroupVector pSong).
        0 < getBpmAtColumn pSong position \<and> 0 \<le> group_length ext pSong position \<and>
        f32 (group_ticksize pDriver pSong position *
             f32 (of_int (group_length ext pSong position))) < 2 ^ 32)"

subsection \<open>Progress\<close>

text \<open>The percentage of the specification after \<open>i\<close> of \<open>N\<close> groups.\<close>

definition spec_percentage :: "nat \<Rightarrow> nat \<Rightarrow> int" where
  "spec_percentage i N = round (100 * real i / real N)"

text \<open>The progress values of a run of the thread.\<close>

definition run_progress :: "(exit \<times> ('w, 'f) state) option \<Rightarrow> int list option" where
  "run_progress r = map_option (\<lambda>(x, t). progress (trace t)) r"

text \<open>The frame counts pulled in a run of the thread.\<close>

definition run_pulled :: "(exit \<times> ('w, 'f) state) option \<Rightarrow> nat list option" where
  "run_pulled r = map_option (\<lambda>(x, t). pulled (trace t)) r"

subsection \<open>A test scene\<close>

text \<open>
  An engine that is always ready and delivers silence, a sound file library that accepts
  everything, and the first scenario of the specification: two columns with one pattern of
  96 ticks each, at 120 beats per minute and 48 ticks per beat, rendered at 48000 Hz with
  buffers of 16384 frames.
\<close>

definition silence :: "(unit, unit) externals" where
  "silence = \<lparr>play = (\<lambda>w. w), m_processCallback = (\<lambda>n w. (0, w)),
     m_pOut_L = (\<lambda>w i. 0), m_pOut_R = (\<lambda>w i. 0),
     sf_format_check = (\<lambda>info. True), sf_open = (\<lambda>name info f. (True, f)),
     sf_writef_float = (\<lambda>h a n f. (n, f)), sf_close = (\<lambda>h f. f), MAX_NOTES = 192\<rparr>"

definition driver_A :: DiskWriterDriver where
  "driver_A = \<lparr>m_nSampleRate = 48000, m_nSampleDepth = 16, m_sFilename = ''song.wav'',
     m_nBufferSize = 16384\<rparr>"

definition song_A :: Song where
  "song_A = \<lparr>getPatternGroupVector = [[96], [96]], getResolution = 48,
     getBpmAtColumn = (\<lambda>c. 120)\<rparr>"

text \<open>The state in which the loop over the chunks of a column starts in this scene.\<close>

definition start_A :: "(unit, unit) state" where
  "start_A = \<lparr>world = (), sink = (), pData = replicate 32768 0, trace = []\<rparr>"

text \<open>
  A song of one column with a pattern of 23 ticks, at 46 beats per minute and 48 ticks per
  beat.
\<close>

definition song_46 :: Song where
  "song_46 = \<lparr>getPatternGroupVector = [[23]], getResolution = 48,
     getBpmAtColumn = (\<lambda>c. 46)\<rparr>"

text \<open>The same song with three columns, and a song of \<open>2 ^ 24 + 1\<close> empty columns.\<close>

definition song_3 :: Song where
  "song_3 = song_A\<lparr>getPatternGroupVector := [[96], [96], [96]]\<rparr>"

definition long_song :: Song where
  "long_song = song_A\<lparr>getPatternGroupVector := replicate 16777217 []\<rparr>"

text \<open>
  A driver with a buffer size of 0 and a song without columns, whose resolution and tempo
  are 0.
\<close>

definition driver_0 :: DiskWriterDriver where
  "driver_0 = \<lparr>m_nSampleRate = 48000, m_nSampleDepth = 16, m_sFilename = ''song.wav'',
     m_nBufferSize = 0\<rparr>"

definition song_0 :: Song where
  "song_0 = \<lparr>getPatternGroupVector = [], getResolution = 0, getBpmAtColumn = (\<lambda>c. 0)\<rparr>"

text \<open>
  A sound file that cannot be opened, with writes that return 0 on the null handle, and a
  small scene for it: one column of three ticks, at one frame per tick, with buffers of two
  frames.
\<close>

definition no_file :: "(unit, unit) externals" where
  "no_file = silence\<lparr>sf_open := (\<lambda>name info f. (False, f)),
                     sf_writef_float := (\<lambda>h a n f. (if h then n else 0, f))\<rparr>"

definition driver_s :: DiskWriterDriver where
  "driver_s = \<lparr>m_nSampleRate = 48, m_nSampleDepth = 16, m_sFilename = ''song.wav'',
     m_nBufferSize = 2\<rparr>"

definition song_s :: Song where
  "song_s = \<lparr>getPatternGroupVector = [[3]], getResolution = 48, getBpmAtColumn = (\<lambda>c. 60)\<rparr>"

text \<open>The same song at a tempo of 0.\<close>

definition song_still :: Song where
  "song_still = song_s\<lparr>getBpmAtColumn := (\<lambda>c. 0)\<rparr>"

section \<open>Properties\<close>

subsection \<open>Format selection\<close>

lemma endsWith_same_length:
  "length t = length u \<Longrightarrow> endsWith s t \<Longrightarrow> endsWith s u \<Longrightarrow> t = u"
  by (simp add: endsWith_def)

lemma endsWith_longer:
  assumes "endsWith s (c # t)"
  shows "endsWith s t"
proof -
  from assms have len: "Suc (length t) \<le> length s"
    and eq: "drop (length s - Suc (length t)) s = c # t"
    by (simp_all add: endsWith_def)
  from len have "length s - length t = Suc (length s - Suc (length t))"
    by arith
  then have "drop (length s - length t) s = drop 1 (drop (length s - Suc (length t)) s)"
    by simp
  with eq len show ?thesis by (simp add: endsWith_def)
qed

lemma not_aiff_and_wav:
  "\<not> (endsWith s ''.aiff'' \<and> endsWith s ''.wav'')"
  "\<not> (endsWith s ''.aiff'' \<and> endsWith s ''.WAV'')"
  "\<not> (endsWith s ''.AIFF'' \<and> endsWith s ''.wav'')"
  "\<not> (endsWith s ''.AIFF'' \<and> endsWith s ''.WAV'')"
  using endsWith_same_length [of "''aiff''" "''.wav''" s]
    endsWith_same_length [of "''aiff''" "''.WAV''" s]
    endsWith_same_length [of "''AIFF''" "''.wav''" s]
    endsWith_same_length [of "''AIFF''" "''.WAV''" s]
    endsWith_longer [of s "CHR ''.''" "''aiff''"]
    endsWith_longer [of s "CHR ''.''" "''AIFF''"]
  by auto

lemma not_flac_and_aiff:
  "\<not> (endsWith s ''.flac'' \<and> endsWith s ''.aiff'')"
  "\<not> (endsWith s ''.flac'' \<and> endsWith s ''.AIFF'')"
  "\<not> (endsWith s ''.FLAC'' \<and> endsWith s ''.aiff'')"
  "\<not> (endsWith s ''.FLAC'' \<and> endsWith s ''.AIFF'')"
  using endsWith_same_length [of "''.flac''" "''.aiff''" s]
    endsWith_same_length [of "''.flac''" "''.AIFF''" s]
    endsWith_same_length [of "''.FLAC''" "''.aiff''" s]
    endsWith_same_length [of "''.FLAC''" "''.AIFF''" s]
  by auto

lemma not_flac_and_wav:
  "\<not> (endsWith s ''.flac'' \<and> endsWith s ''.wav'')"
  "\<not> (endsWith s ''.flac'' \<and> endsWith s ''.WAV'')"
  "\<not> (endsWith s ''.FLAC'' \<and> endsWith s ''.wav'')"
  "\<not> (endsWith s ''.FLAC'' \<and> endsWith s ''.WAV'')"
  using endsWith_same_length [of "''flac''" "''.wav''" s]
    endsWith_same_length [of "''flac''" "''.WAV''" s]
    endsWith_same_length [of "''FLAC''" "''.wav''" s]
    endsWith_same_length [of "''FLAC''" "''.WAV''" s]
    endsWith_longer [of s "CHR ''.''" "''flac''"]
    endsWith_longer [of s "CHR ''.''" "''FLAC''"]
  by auto

lemma format_words:
  "container (SF_FORMAT_WAV OR SF_FORMAT_PCM_16) = SF_FORMAT_WAV"
  "encoding (SF_FORMAT_FLAC OR SF_FORMAT_PCM_16) = SF_FORMAT_PCM_16"
  "encoding (SF_FORMAT_OGG OR SF_FORMAT_VORBIS) = SF_FORMAT_VORBIS"
  "container (SF_FORMAT_OGG OR SF_FORMAT_VORBIS) = SF_FORMAT_OGG"
  by (simp_all add: container_def encoding_def SF_FORMAT_WAV_def SF_FORMAT_PCM_16_def
      SF_FORMAT_FLAC_def SF_FORMAT_OGG_def SF_FORMAT_VORBIS_def SF_FORMAT_TYPEMASK_def
      SF_FORMAT_SUBMASK_def)


lemmas sf_constants = SF_FORMAT_WAV_def SF_FORMAT_AIFF_def SF_FORMAT_FLAC_def SF_FORMAT_OGG_def
  SF_FORMAT_PCM_S8_def SF_FORMAT_PCM_16_def SF_FORMAT_PCM_24_def SF_FORMAT_PCM_32_def
  SF_FORMAT_PCM_U8_def SF_FORMAT_VORBIS_def SF_FORMAT_SUBMASK_def SF_FORMAT_TYPEMASK_def

text \<open>
  C3, as the code has it. A file name ending in \<^verbatim>\<open>.ogg\<close> or \<^verbatim>\<open>.OGG\<close> gives Ogg Vorbis
  whatever the depth. Otherwise the container is FLAC for \<^verbatim>\<open>.flac\<close> or \<^verbatim>\<open>.FLAC\<close>, AIFF for
  \<^verbatim>\<open>.aiff\<close> or \<^verbatim>\<open>.AIFF\<close> and WAV for every other name, and the encoding is signed 32-bit
  or 24-bit PCM for depth 32 or 24, for depth 8 signed 8-bit PCM with \<^verbatim>\<open>.aiff\<close> or \<^verbatim>\<open>.AIFF\<close>
  and unsigned 8-bit PCM with \<^verbatim>\<open>.wav\<close> or \<^verbatim>\<open>.WAV\<close>, and signed 16-bit PCM in every other
  case.
\<close>

theorem format_selection_table:
  "soundInfo_format sFilename nSampleDepth =
     (case classify sFilename of
        Ext_ogg \<Rightarrow> SF_FORMAT_OGG OR SF_FORMAT_VORBIS
      | Ext_flac \<Rightarrow> SF_FORMAT_FLAC OR depth_encoding nSampleDepth
      | Ext_aiff \<Rightarrow> SF_FORMAT_AIFF OR
          (if nSampleDepth = 8 then SF_FORMAT_PCM_S8 else depth_encoding nSampleDepth)
      | Ext_wav \<Rightarrow> SF_FORMAT_WAV OR
          (if nSampleDepth = 8 then SF_FORMAT_PCM_U8 else depth_encoding nSampleDepth)
      | Ext_other \<Rightarrow> SF_FORMAT_WAV OR depth_encoding nSampleDepth)"
  using not_aiff_and_wav [of sFilename] not_flac_and_aiff [of sFilename]
    not_flac_and_wav [of sFilename]
  by (auto simp add: soundInfo_format_def classify_def depth_encoding_def sf_constants Let_def)

text \<open>
  C3 as stated fails twice: at depth 8 a FLAC file gets signed 16-bit PCM where the table of
  the specification has unsigned 8-bit PCM, and a name ending in \<^verbatim>\<open>.Aiff\<close> gets a WAV
  container where a comparison without regard to case gives AIFF.
\<close>

theorem format_selection_counterexample:
  "encoding (soundInfo_format ''song.flac'' 8) = SF_FORMAT_PCM_16 \<and>
   spec_encoding (spec_container ''song.flac'') 8 = SF_FORMAT_PCM_U8 \<and>
   container (soundInfo_format ''song.Aiff'' 16) = SF_FORMAT_WAV \<and>
   spec_container ''song.Aiff'' = SF_FORMAT_AIFF"
  by (simp add: soundInfo_format_def endsWith_def spec_encoding_def spec_container_def
      lower_def container_def encoding_def sf_constants)

subsection \<open>Rounding\<close>

lemma rne_of_int: "rne (of_int n) = n"
  by (simp add: rne_def)

lemma rne_le: 
  assumes "x \<le> of_int n" shows "rne x \<le> n"
proof (cases "x = of_int n")
  case True then show ?thesis by (simp add: rne_of_int)
next
  case False
  with assms have "x < of_int n" by simp
  then have "\<lfloor>x\<rfloor> < n" by (simp add: floor_less_iff)
  then show ?thesis by (simp add: rne_def Let_def)
qed

lemma rne_ge:
  assumes "of_int n \<le> x" shows "n \<le> rne x"
proof -
  from assms have "n \<le> \<lfloor>x\<rfloor>" by (simp add: le_floor_iff)
  then show ?thesis by (simp add: rne_def Let_def)
qed

lemma rne_mono:
  assumes "x \<le> y" shows "rne x \<le> rne y"
proof (cases "\<lfloor>x\<rfloor> = \<lfloor>y\<rfloor>")
  case True
  with assms have "x - of_int \<lfloor>x\<rfloor> \<le> y - of_int \<lfloor>y\<rfloor>" by simp
  with True show ?thesis by (auto simp add: rne_def Let_def)
next
  case False
  with assms have "\<lfloor>x\<rfloor> < \<lfloor>y\<rfloor>" using floor_mono [of x y] by simp
  moreover have "rne x \<le> \<lfloor>x\<rfloor> + 1" by (simp add: rne_def Let_def)
  moreover have "\<lfloor>y\<rfloor> \<le> rne y" by (simp add: rne_def Let_def)
  ultimately show ?thesis by simp
qed

lemma powi_mono: "a \<le> b \<Longrightarrow> (2::real) powi a \<le> 2 powi b"
  by (rule power_int_increasing) simp_all

lemma powi_double: "(2::real) powi (e + 1) = 2 * 2 powi e"
  by (simp add: power_int_add)

lemma powi_half: "(2::real) powi (e - 1) = 2 powi e / 2"
  by (simp add: power_int_diff)

lemma ilog2_bounds: "0 < x \<Longrightarrow> 2 powi ilog2 x \<le> x \<and> x < 2 powi (ilog2 x + 1)"
proof (induction x rule: ilog2.induct)
  case (1 x)
  show ?case
  proof (cases "x < 1")
    case True
    with 1(3) have b: "ilog2 x = ilog2 (2 * x) - 1" by (subst ilog2.simps) simp
    from 1(1) True 1(3) have "2 powi ilog2 (2 * x) \<le> 2 * x \<and> 2 * x < 2 powi (ilog2 (2 * x) + 1)"
      by simp
    moreover have "(2::real) powi (ilog2 (2 * x) - 1) = 2 powi ilog2 (2 * x) / 2"
      by (rule powi_half)
    moreover have "(2::real) powi (ilog2 (2 * x) - 1 + 1) = 2 powi ilog2 (2 * x)"
      by simp
    moreover have "(2::real) powi (ilog2 (2 * x) + 1) = 2 * 2 powi ilog2 (2 * x)"
      by (rule powi_double)
    ultimately show ?thesis unfolding b by linarith
  next
    case False
    show ?thesis
    proof (cases "2 \<le> x")
      case True
      with False 1(3) have b: "ilog2 x = ilog2 (x / 2) + 1" by (subst ilog2.simps) simp
      from 1(2) True False 1(3) have "2 powi ilog2 (x / 2) \<le> x / 2 \<and> x / 2 < 2 powi (ilog2 (x / 2) + 1)"
        by simp
      moreover have "(2::real) powi (ilog2 (x / 2) + 1) = 2 * 2 powi ilog2 (x / 2)"
        by (rule powi_double)
      moreover have "(2::real) powi (ilog2 (x / 2) + 1 + 1) = 2 * 2 powi (ilog2 (x / 2) + 1)"
        by (rule powi_double)
      ultimately show ?thesis unfolding b by linarith
    next
      case F: False
      with False 1(3) have "ilog2 x = 0" by (subst ilog2.simps) simp
      with False F show ?thesis by simp
    qed
  qed
qed

lemma bexp_iff:
  assumes "x \<noteq> 0"
  shows "bexp x = e \<longleftrightarrow> 2 powi e \<le> \<bar>x\<bar> \<and> \<bar>x\<bar> < 2 powi (e + 1)"
proof
  from assms have pos: "0 < \<bar>x\<bar>" by simp
  note b = ilog2_bounds [OF pos]
  {
    assume "bexp x = e"
    with b show "2 powi e \<le> \<bar>x\<bar> \<and> \<bar>x\<bar> < 2 powi (e + 1)" by (simp add: bexp_def)
  next
    assume a: "2 powi e \<le> \<bar>x\<bar> \<and> \<bar>x\<bar> < 2 powi (e + 1)"
    show "bexp x = e"
    proof (rule ccontr)
      assume "bexp x \<noteq> e"
      then consider "ilog2 \<bar>x\<bar> + 1 \<le> e" | "e + 1 \<le> ilog2 \<bar>x\<bar>"
        unfolding bexp_def by linarith
      then show False
      proof cases
        case 1
        then have "(2::real) powi (ilog2 \<bar>x\<bar> + 1) \<le> 2 powi e" by (rule powi_mono)
        with a b show False by linarith
      next
        case 2
        then have "(2::real) powi (e + 1) \<le> 2 powi ilog2 \<bar>x\<bar>" by (rule powi_mono)
        with a b show False by linarith
      qed
    qed
  }
qed

lemma bexp_bounds:
  assumes "x \<noteq> 0"
  shows "2 powi bexp x \<le> \<bar>x\<bar>" and "\<bar>x\<bar> < 2 powi (bexp x + 1)"
  using bexp_iff [OF assms, of "bexp x"] by simp_all

lemma bexp_unique:
  assumes "2 powi e \<le> \<bar>x\<bar>" and "\<bar>x\<bar> < 2 powi (e + 1)"
  shows "bexp x = e"
proof -
  have "(0::real) < 2 powi e" by simp
  with assms(1) have "0 < \<bar>x\<bar>" by linarith
  then have "x \<noteq> 0" by simp
  from bexp_iff [OF this, of e] assms show ?thesis by simp
qed

lemma powi_split: "(2::real) powi (a + b) = 2 powi a * 2 powi b"
  by (rule power_int_add) simp

lemma bexp_mono:
  assumes "0 < x" and "x \<le> y"
  shows "bexp x \<le> bexp y"
proof (rule ccontr)
  assume "\<not> bexp x \<le> bexp y"
  then have "bexp y + 1 \<le> bexp x" by simp
  then have "(2::real) powi (bexp y + 1) \<le> 2 powi bexp x" by (rule powi_mono)
  moreover from assms have "\<bar>y\<bar> < 2 powi (bexp y + 1)" by (intro bexp_bounds) simp
  moreover from assms have "2 powi bexp x \<le> \<bar>x\<bar>" by (intro bexp_bounds) simp
  ultimately show False using assms by simp
qed

lemma scaled_bounds:
  fixes p :: nat
  assumes "0 < x" and e_def: "e = bexp x - (int p - 1)" and "0 < p"
  shows "2 ^ (p - 1) * 2 powi e \<le> x" and "x < 2 ^ p * 2 powi e" 
proof -
  from assms have b: "2 powi bexp x \<le> x" "x < 2 powi (bexp x + 1)"
    using bexp_bounds [of x] by simp_all
  have "(2::real) ^ (p - 1) * 2 powi e = 2 powi (int (p - 1)) * 2 powi e"
    by (simp add: power_int_of_nat)
  also have "\<dots> = 2 powi (int (p - 1) + e)" by (simp add: powi_split)
  also have "\<dots> \<le> 2 powi bexp x"
    using \<open>0 < p\<close> by (intro powi_mono) (simp add: e_def)
  finally show "2 ^ (p - 1) * 2 powi e \<le> x" using b by simp
  have "2 powi (bexp x + 1) \<le> (2::real) powi (int p + e)"
    by (rule powi_mono) (simp add: e_def)
  also have "\<dots> = 2 ^ p * 2 powi e" by (simp add: powi_split power_int_of_nat)
  finally show "x < 2 ^ p * 2 powi e" using b by simp
qed

lemma fround_pos_eq:
  "0 < x \<Longrightarrow> fround p x = of_int (rne (x / 2 powi (bexp x - (int p - 1)))) * 2 powi (bexp x - (int p - 1))"
  by (simp add: fround_def Let_def)

lemma representable_scaled:
  fixes r :: real
  assumes r: "r = of_int m * 2 powi k" and m: "\<bar>m\<bar> < 2 ^ p" and "0 < r"
    and big: "2 ^ (p - 1) * 2 powi e \<le> r" and "0 < p"
  shows "\<exists>n. r = of_int n * 2 powi e"
proof -
  have "e \<le> k"
  proof (rule ccontr)
    assume "\<not> e \<le> k"
    then have "k + 1 \<le> e" by simp
    have "(0::real) < 2 powi k" by simp
    with r \<open>0 < r\<close> have "0 < real_of_int m" by (simp add: zero_less_mult_iff)
    then have mpos: "0 < m" by simp
    from m have "m < 2 ^ p" by simp
    then have "real_of_int m < 2 ^ p" by simp
    then have "r < 2 ^ p * 2 powi k" using r by simp
    also have "\<dots> = 2 ^ (p - 1) * 2 powi (k + 1)"
      using \<open>0 < p\<close> by (cases p) (simp_all add: powi_split)
    also have "\<dots> \<le> 2 ^ (p - 1) * 2 powi e"
      using powi_mono [OF \<open>k + 1 \<le> e\<close>] by simp
    finally show False using big by simp
  qed
  then obtain j where k: "k = e + int j" by (metis zle_iff_zadd)
  have "r = of_int (m * 2 ^ j) * 2 powi e"
    by (simp add: r k powi_split power_int_of_nat)
  then show ?thesis ..
qed

lemma fround_upper:
  assumes "0 < x" and "x \<le> r" and "representable p r" and "0 < p"
  shows "fround p x \<le> r"
proof -
  define e where "e = bexp x - (int p - 1)"
  from assms obtain m k where r: "r = of_int m * 2 powi k" and m: "\<bar>m\<bar> < 2 ^ p"
    by (auto simp add: representable_def)
  have "2 ^ (p - 1) * 2 powi e \<le> x" by (rule scaled_bounds) (fact \<open>0 < x\<close> e_def \<open>0 < p\<close>)+
  with assms have "2 ^ (p - 1) * 2 powi e \<le> r" by simp
  from representable_scaled [OF r m _ this \<open>0 < p\<close>] assms
  obtain n where n: "r = of_int n * 2 powi e" by auto
  have "x / 2 powi e \<le> of_int n"
    using \<open>x \<le> r\<close> by (simp add: n field_simps)
  then have "rne (x / 2 powi e) \<le> n" by (rule rne_le)
  then have "of_int (rne (x / 2 powi e)) * 2 powi e \<le> of_int n * (2::real) powi e"
    by (simp add: mult_right_mono)
  then show ?thesis using \<open>0 < x\<close> by (simp add: fround_pos_eq e_def n)
qed

lemma fround_lower:
  assumes "0 < r" and "r \<le> y" and "representable p r" and "0 < p"
  shows "r \<le> fround p y"
proof -
  define e where "e = bexp y - (int p - 1)"
  from assms have "0 < y" by simp
  from assms obtain m k where r: "r = of_int m * 2 powi k" and m: "\<bar>m\<bar> < 2 ^ p"
    by (auto simp add: representable_def)
  have lo: "2 ^ (p - 1) * 2 powi e \<le> y" by (rule scaled_bounds) (fact \<open>0 < y\<close> e_def \<open>0 < p\<close>)+
  have fr: "fround p y = of_int (rne (y / 2 powi e)) * 2 powi e"
    using \<open>0 < y\<close> by (simp add: fround_pos_eq e_def)
  show ?thesis
  proof (cases "2 ^ (p - 1) * 2 powi e \<le> r")
    case True
    from representable_scaled [OF r m \<open>0 < r\<close> True \<open>0 < p\<close>]
    obtain n where n: "r = of_int n * 2 powi e" by auto
    have "of_int n \<le> y / 2 powi e"
      using \<open>r \<le> y\<close> by (simp add: n field_simps)
    then have "n \<le> rne (y / 2 powi e)" by (rule rne_ge)
    then have "of_int n * (2::real) powi e \<le> of_int (rne (y / 2 powi e)) * 2 powi e"
      by (simp add: mult_right_mono)
    then show ?thesis by (simp add: fr n)
  next
    case False
    have "of_int (2 ^ (p - 1)) \<le> y / 2 powi e"
      using lo by (simp add: field_simps)
    then have "2 ^ (p - 1) \<le> rne (y / 2 powi e)" by (rule rne_ge)
    then have "of_int (2 ^ (p - 1)) * (2::real) powi e \<le> of_int (rne (y / 2 powi e)) * 2 powi e"
      by (intro mult_right_mono) simp_all
    then have "2 ^ (p - 1) * 2 powi e \<le> fround p y" by (simp add: fr)
    with False show ?thesis by linarith
  qed
qed

lemma fround_id:
  assumes "representable p r" and "0 \<le> r" and "0 < p"
  shows "fround p r = r"
proof (cases "r = 0")
  case True then show ?thesis by (simp add: fround_def)
next
  case False
  with assms have "0 < r" by simp
  from fround_upper [OF this order_refl assms(1,3)]
    fround_lower [OF this order_refl assms(1,3)]
  show ?thesis by simp
qed

lemma fround_nonneg:
  assumes "0 \<le> x" shows "0 \<le> fround p x"
proof (cases "x = 0")
  case True then show ?thesis by (simp add: fround_def)
next
  case False
  with assms have "0 < x" by simp
  have "0 \<le> x / 2 powi (bexp x - (int p - 1))" using assms by simp
  then have "0 \<le> rne (x / 2 powi (bexp x - (int p - 1)))"
    using rne_ge [of 0] by simp
  then show ?thesis using \<open>0 < x\<close> by (simp add: fround_pos_eq)
qed

lemma representable_powi: "0 < p \<Longrightarrow> representable p (2 powi k)"
  unfolding representable_def
  by (rule exI [of _ 1], rule exI [of _ k]) simp

lemma fround_mono:
  assumes "0 \<le> x" and "x \<le> y" and "0 < p"
  shows "fround p x \<le> fround p y"
proof (cases "x = 0")
  case True
  with assms fround_nonneg [of y p] show ?thesis by (simp add: fround_def)
next
  case False
  with assms have x: "0 < x" and y: "0 < y" by simp_all
  show ?thesis
  proof (cases "bexp x = bexp y")
    case True
    define e where "e = bexp y - (int p - 1)"
    have "x / 2 powi e \<le> y / 2 powi e"
      using \<open>x \<le> y\<close> by (simp add: divide_right_mono)
    then have "rne (x / 2 powi e) \<le> rne (y / 2 powi e)" by (rule rne_mono)
    then have "of_int (rne (x / 2 powi e)) * (2::real) powi e \<le> of_int (rne (y / 2 powi e)) * 2 powi e"
      by (simp add: mult_right_mono)
    then show ?thesis using x y True by (simp add: fround_pos_eq e_def)
  next
    case False
    with bexp_mono [OF x \<open>x \<le> y\<close>] have "bexp x + 1 \<le> bexp y" by simp
    then have "(2::real) powi (bexp x + 1) \<le> 2 powi bexp y" by (rule powi_mono)
    moreover have "x < 2 powi (bexp x + 1)" using bexp_bounds [of x] x by simp
    moreover have "2 powi bexp y \<le> y" using bexp_bounds [of y] y by simp
    ultimately have "x \<le> 2 powi bexp y" "2 powi bexp y \<le> y" by simp_all
    from fround_upper [OF x this(1) representable_powi [OF \<open>0 < p\<close>] \<open>0 < p\<close>]
      fround_lower [OF _ this(2) representable_powi [OF \<open>0 < p\<close>] \<open>0 < p\<close>]
    show ?thesis by simp
  qed
qed


lemma representableI: "r = of_int m * 2 powi k \<Longrightarrow> \<bar>m\<bar> < 2 ^ p \<Longrightarrow> representable p r"
  by (auto simp add: representable_def)

lemma fround_eval:
  assumes "2 powi b \<le> x" and "x < 2 powi (b + 1)" and "e = b - (int p - 1)"
  shows "fround p x = of_int (rne (x / 2 powi e)) * 2 powi e"
proof -
  have "(0::real) < 2 powi b" by simp
  with assms have "0 < x" by linarith
  moreover from assms this have "bexp x = b" by (intro bexp_unique) simp_all
  ultimately show ?thesis using assms by (simp add: fround_pos_eq)
qed

lemma f32_nat: 
  assumes "n \<le> 2 ^ 24" shows "f32 (real n) = real n"
proof (cases "n = 2 ^ 24")
  case True
  have "representable 24 (2 powi 24)" by (rule representable_powi) simp
  then have "fround 24 (2 powi 24) = 2 powi 24" by (rule fround_id) simp_all
  with True show ?thesis by (simp add: f32_def)
next
  case False
  with assms have "n < 2 ^ 24" by simp
  then have "representable 24 (real n)"
    by (intro representableI [of _ "int n" 0]) simp_all
  then show ?thesis unfolding f32_def by (rule fround_id) simp_all
qed

lemma f32_one: "f32 1 = 1"
  using f32_nat [of 1] by simp

lemma f32_hundred: "f32 100 = 100"
  using f32_nat [of 100] by simp

lemma f64_hundred: "f64 100 = 100"
proof -
  have "representable 53 100"
    by (rule representableI [of _ 100 0]) simp_all
  then show ?thesis unfolding f64_def by (rule fround_id) simp_all
qed

lemma f32_mono: "0 \<le> x \<Longrightarrow> x \<le> y \<Longrightarrow> f32 x \<le> f32 y"
  unfolding f32_def by (rule fround_mono) simp_all

lemma f64_mono: "0 \<le> x \<Longrightarrow> x \<le> y \<Longrightarrow> f64 x \<le> f64 y"
  unfolding f64_def by (rule fround_mono) simp_all

lemma f32_nonneg: "0 \<le> x \<Longrightarrow> 0 \<le> f32 x"
  unfolding f32_def by (rule fround_nonneg)

lemma f64_nonneg: "0 \<le> x \<Longrightarrow> 0 \<le> f64 x"
  unfolding f64_def by (rule fround_nonneg)

lemma f32_ge_one: "1 \<le> x \<Longrightarrow> 1 \<le> f32 x"
  using f32_mono [of 1 x] by (simp add: f32_one)

lemma fPercent_mono:
  assumes "i \<le> j" and "0 < N"
  shows "fPercent i N \<le> fPercent j N"
proof -
  from \<open>0 < N\<close> have a: "1 \<le> f32 (real N)" by (intro f32_ge_one) simp
  have "f32 (real (i + 1)) \<le> f32 (real (j + 1))" using \<open>i \<le> j\<close> by (intro f32_mono) simp_all
  then have "f32 (real (i + 1)) / f32 (real N) \<le> f32 (real (j + 1)) / f32 (real N)"
    using a by (intro divide_right_mono) simp_all
  moreover have "0 \<le> f32 (real (i + 1)) / f32 (real N)"
    using a f32_nonneg [of "real (i + 1)"] by simp
  ultimately have q: "f32 (f32 (real (i + 1)) / f32 (real N)) \<le> f32 (f32 (real (j + 1)) / f32 (real N))"
    and q0: "0 \<le> f32 (f32 (real (i + 1)) / f32 (real N))"
    by (simp_all add: f32_mono f32_nonneg)
  from q q0 have "f64 (f32 (f32 (real (i + 1)) / f32 (real N)) * 100) \<le> f64 (f32 (f32 (real (j + 1)) / f32 (real N)) * 100)"
    by (intro f64_mono) simp_all
  moreover from q0 have "0 \<le> f64 (f32 (f32 (real (i + 1)) / f32 (real N)) * 100)"
    by (intro f64_nonneg) simp
  ultimately show ?thesis unfolding fPercent_def by (rule f32_mono [rotated])
qed

lemma fPercent_nonneg: "0 \<le> fPercent i N"
proof -
  have "0 \<le> f32 (real (i + 1)) / f32 (real N)"
    by (intro divide_nonneg_nonneg f32_nonneg) simp_all
  then have "0 \<le> f32 (f32 (real (i + 1)) / f32 (real N)) * 100"
    using f32_nonneg by simp
  then show ?thesis unfolding fPercent_def by (intro f32_nonneg f64_nonneg)
qed

lemma fPercent_last:
  assumes "0 < N" shows "fPercent (N - 1) N = 100"
proof -
  from assms have "1 \<le> f32 (real N)" by (intro f32_ge_one) simp
  then have "f32 (real N) / f32 (real N) = 1" by simp
  with assms show ?thesis
    by (simp add: fPercent_def f32_one f64_hundred f32_hundred)
qed

lemma fPercent_le: "i < N \<Longrightarrow> fPercent i N \<le> 100"
  using fPercent_mono [of i "N - 1" N] fPercent_last [of N] by simp


subsection \<open>Clipping and interleaving\<close>

lemma clamp_code: "(if x > 1 then 1 else if x < - 1 then - 1 else x) = clamp x"
  by (simp add: clamp_def max_def min_def)

lemma interleave_inv:
  assumes "2 * n \<le> length a" and "2 * n \<le> 2 ^ 32" and "i \<le> n"
  shows "\<exists>out. interleave L R n i a = Some out \<and> length out = length a \<and>
           (\<forall>j. i \<le> j \<and> j < n \<longrightarrow> out ! (2 * j) = clamp (L j) \<and> out ! (2 * j + 1) = clamp (R j)) \<and>
           (\<forall>k < length a. k < 2 * i \<or> 2 * n \<le> k \<longrightarrow> out ! k = a ! k)"
  using assms
proof (induction "n - i" arbitrary: i a)
  case 0
  then have "i = n" by simp
  then show ?case by (simp add: interleave.simps)
next
  case (Suc d)
  then have lt: "i < n" by simp
  with Suc.prems have idx: "(i * 2) mod 2 ^ 32 = 2 * i" "(i * 2 + 1) mod 2 ^ 32 = 2 * i + 1"
    by simp_all
  define b where "b = a[2 * i := clamp (L i), 2 * i + 1 := clamp (R i)]"
  from lt Suc.prems have inb: "2 * i < length a" "2 * i + 1 < length a" by simp_all
  have unfold: "interleave L R n i a = interleave L R n (i + 1) b"
    using lt inb
    by (subst interleave.simps, simp only: idx)
      (simp add: store_def clamp_code b_def)
  have "d = n - (i + 1)" using Suc.hyps by simp
  moreover have "2 * n \<le> length b" using Suc.prems by (simp add: b_def)
  moreover have "i + 1 \<le> n" using lt by simp
  ultimately obtain out where out: "interleave L R n (i + 1) b = Some out" "length out = length b"
    "\<forall>j. i + 1 \<le> j \<and> j < n \<longrightarrow> out ! (2 * j) = clamp (L j) \<and> out ! (2 * j + 1) = clamp (R j)"
    "\<forall>k < length b. k < 2 * (i + 1) \<or> 2 * n \<le> k \<longrightarrow> out ! k = b ! k"
    using Suc.hyps(1) [of "i + 1" b] Suc.prems(2) by blast
  have len: "length b = length a" by (simp add: b_def)
  have bi: "b ! (2 * i) = clamp (L i)" "b ! (2 * i + 1) = clamp (R i)"
    using inb by (simp_all add: b_def)
  have "out ! (2 * i) = clamp (L i)" "out ! (2 * i + 1) = clamp (R i)"
    using out(4) inb bi len by simp_all
  then have A: "\<forall>j. i \<le> j \<and> j < n \<longrightarrow> out ! (2 * j) = clamp (L j) \<and> out ! (2 * j + 1) = clamp (R j)"
    using out(3) by (metis Suc_eq_plus1 Suc_leI le_neq_implies_less)
  have B: "\<forall>k < length a. k < 2 * i \<or> 2 * n \<le> k \<longrightarrow> out ! k = a ! k"
  proof (intro allI impI)
    fix k assume k: "k < length a" "k < 2 * i \<or> 2 * n \<le> k"
    with lt have "k \<noteq> 2 * i" "k \<noteq> 2 * i + 1" by auto
    then have "b ! k = a ! k" by (simp add: b_def)
    moreover from k lt have "k < 2 * (i + 1) \<or> 2 * n \<le> k" by auto
    moreover have "k < length b" using k len by simp
    ultimately show "out ! k = a ! k" using out(4) by metis
  qed
  show ?case using unfold out(1,2) len A B by simp
qed


subsection \<open>Traces\<close>

lemma pulled_append [simp]: "pulled (xs @ ys) = pulled xs @ pulled ys"
  by (simp add: pulled_def)

lemma progress_append [simp]: "progress (xs @ ys) = progress xs @ progress ys"
  by (simp add: progress_def)


lemma emit_simps [simp]:
  "trace (emit e s) = trace s @ [e]" "world (emit e s) = world s"
  "sink (emit e s) = sink s" "pData (emit e s) = pData s"
  by (simp_all add: emit_def)

lemma pull_trace:
  assumes "pull ext n s = Some t"
  shows "\<exists>rets. trace t = trace s @ map (Callback n) rets @ [Callback n 0] \<and> 0 \<notin> set rets
            \<and> sink t = sink s \<and> pData t = pData s"
  using assms
proof (induction ext n s t rule: pull.raw_induct [rotated, consumes 1])
  case (1 call ext n s t)
  obtain ret w where cb: "m_processCallback ext n (world s) = (ret, w)" by (cases "m_processCallback ext n (world s)")
  show ?case
  proof (cases "ret = 0")
    case True
    with 1(2) cb have "t = emit (Callback n 0) (s\<lparr>world := w\<rparr>)" by (simp add: Let_def)
    then have "trace t = trace s @ map (Callback n) [] @ [Callback n 0] \<and> 0 \<notin> set ([]::int list)
            \<and> sink t = sink s \<and> pData t = pData s" by simp
    then show ?thesis by blast
  next
    case False
    with 1(2) cb have "call ext n (emit (Callback n ret) (s\<lparr>world := w\<rparr>)) = Some t" by (simp add: Let_def)
    from 1(1) [OF this] obtain rets where
      "trace t = (trace s @ [Callback n ret]) @ map (Callback n) rets @ [Callback n 0]" "0 \<notin> set rets"
      "sink t = sink s" "pData t = pData s" by auto
    with False have "trace t = trace s @ map (Callback n) (ret # rets) @ [Callback n 0] \<and> 0 \<notin> set (ret # rets)
            \<and> sink t = sink s \<and> pData t = pData s" by simp
    then show ?thesis by blast
  qed
qed


subsection \<open>The chunks of the specification\<close>

lemma frame_chunks_sizes:
  "0 < B \<Longrightarrow> r \<le> F \<Longrightarrow> map snd (frame_chunks B F r) =
     replicate ((F - r) div B) B @ (if (F - r) mod B = 0 then [] else [(F - r) mod B])"
proof (induction B F r rule: frame_chunks.induct)
  case (1 B F r)
  show ?case
  proof (cases "r < F")
    case False
    with 1(3) have "r = F" by simp
    then show ?thesis by (simp add: frame_chunks.simps)
  next
    case True
    show ?thesis
    proof (cases "F - r < B")
      case True
      with \<open>r < F\<close> 1(2) show ?thesis
        by (subst frame_chunks.simps) (simp add: frame_chunks.simps [of B F F])
    next
      case False
      then have "B \<le> F - r" by simp
      then have m: "min B (F - r) = B" by simp
      have "(F - r) div B = Suc ((F - (r + B)) div B)"
        using \<open>B \<le> F - r\<close> 1(2) by (metis diff_diff_left le_div_geq)
      moreover have "(F - r) mod B = (F - (r + B)) mod B"
        using \<open>B \<le> F - r\<close> by (metis diff_diff_left le_mod_geq)
      moreover have "map snd (frame_chunks B F (r + B)) =
          replicate ((F - (r + B)) div B) B @ (if (F - (r + B)) mod B = 0 then [] else [(F - (r + B)) mod B])"
        using 1(1) [OF _ 1(2)] True \<open>B \<le> F - r\<close> 1(2) m by simp
      ultimately show ?thesis
        using True 1(2) m by (subst frame_chunks.simps) simp
    qed
  qed
qed

lemma frame_chunks_sum:
  assumes "0 < B" and "r \<le> F"
  shows "sum_list (map snd (frame_chunks B F r)) = F - r"
  by (simp add: frame_chunks_sizes [OF assms] sum_list_replicate mod_eq_0_iff_dvd)

lemma frame_chunks_min:
  "(off, n) \<in> set (frame_chunks B F r) \<Longrightarrow> n = min B (F - off) \<and> r \<le> off \<and> off < F \<and> 0 < n"
proof (induction B F r rule: frame_chunks.induct)
  case (1 B F r)
  show ?case
  proof (cases "r < F \<and> 0 < B")
    case False
    with 1(2) show ?thesis by (simp add: frame_chunks.simps)
  next
    case True
    with 1(2) have "(off, n) = (r, min B (F - r)) \<or> (off, n) \<in> set (frame_chunks B F (r + min B (F - r)))"
      by (subst (asm) frame_chunks.simps) simp
    then show ?thesis
    proof
      assume "(off, n) = (r, min B (F - r))"
      with True show ?thesis by simp
    next
      assume "(off, n) \<in> set (frame_chunks B F (r + min B (F - r)))"
      with 1(1) True show ?thesis by simp
    qed
  qed
qed

lemma frame_chunks_offsets:
  "sorted_wrt (<) (map fst (frame_chunks B F r))"
proof (induction B F r rule: frame_chunks.induct)
  case (1 B F r)
  show ?case
  proof (cases "r < F \<and> 0 < B")
    case False
    then show ?thesis by (simp add: frame_chunks.simps)
  next
    case True
    have "\<forall>x \<in> set (frame_chunks B F (r + min B (F - r))). r < fst x"
      using frame_chunks_min [of _ _ B F "r + min B (F - r)"] True by fastforce
    with 1 True show ?thesis
      by (subst frame_chunks.simps) simp
  qed
qed

lemma frame_chunks_prefix_sums:
  "k < length (frame_chunks B F r) \<Longrightarrow>
     fst (frame_chunks B F r ! k) = r + sum_list (take k (map snd (frame_chunks B F r)))"
proof (induction B F r arbitrary: k rule: frame_chunks.induct)
  case (1 B F r)
  show ?case
  proof (cases "r < F \<and> 0 < B")
    case False
    with 1(2) show ?thesis by (simp add: frame_chunks.simps)
  next
    case True
    then have eq: "frame_chunks B F r = (r, min B (F - r)) # frame_chunks B F (r + min B (F - r))"
      by (subst frame_chunks.simps) simp
    show ?thesis
    proof (cases k)
      case 0
      then show ?thesis by (simp add: eq)
    next
      case (Suc j)
      with 1(2) eq have "j < length (frame_chunks B F (r + min B (F - r)))" by simp
      with 1(1) True Suc show ?thesis by (simp add: eq)
    qed
  qed
qed

subsection \<open>The loops\<close>

lemma int_of_unsigned_small: "u < 2 ^ 31 \<Longrightarrow> int_of_unsigned u = int u"
  by (simp add: int_of_unsigned_def)

lemma unsigned_of_int_nat:
  assumes "n < 2 ^ 32"
  shows "unsigned_of_int (int n) = n"
proof -
  from assms have "int n < 2 ^ 32" by simp
  then have "int n mod 2 ^ 32 = int n" by (intro mod_pos_pos_trivial) simp_all
  then show ?thesis by (simp only: unsigned_of_int_def nat_int)
qed

lemma pulled_retries: "0 \<notin> set rets \<Longrightarrow> pulled (map (Callback n) rets) = []"
  by (induction rets) (auto simp add: pulled_def)

lemma progress_callbacks: "progress (map (Callback n) rets) = []"
  by (induction rets) (auto simp add: progress_def)

lemma pull_pulled:
  assumes "pull ext n s = Some t"
  shows "pulled (trace t) = pulled (trace s) @ [n]" and "progress (trace t) = progress (trace s)"
    and "pData t = pData s" and "sink t = sink s"
proof -
  from pull_trace [OF assms] obtain rets where
    t: "trace t = trace s @ map (Callback n) rets @ [Callback n 0]" and r: "0 \<notin> set rets"
    and o: "sink t = sink s" "pData t = pData s" by blast
  show "pulled (trace t) = pulled (trace s) @ [n]"
    by (simp add: t pulled_retries [OF r]) (simp add: pulled_def)
  show "progress (trace t) = progress (trace s)"
    by (simp add: t progress_callbacks) (simp add: progress_def)
  show "pData t = pData s" "sink t = sink s" by (fact o)+
qed

lemma write_chunk_simps:
  "pulled (trace (write_chunk ext m a u s)) = pulled (trace s)"
  "progress (trace (write_chunk ext m a u s)) = progress (trace s)"
  "pData (write_chunk ext m a u s) = a"
  "world (write_chunk ext m a u s) = world s"
  by (simp_all add: write_chunk_def Let_def pulled_def progress_def split: prod.split)

lemma chunk_loop_done:
  "\<not> frameNumber < F \<Longrightarrow> chunk_loop ext d m F frameNumber s = Some s"
  by (subst chunk_loop.simps) simp

lemma chunk_loop_step:
  assumes "0 < m_nBufferSize d" and "m_nBufferSize d < 2 ^ 31" and "frameNumber < F" and "F < 2 ^ 32"
  defines "c \<equiv> min (m_nBufferSize d) (F - frameNumber)"
  shows "chunk_loop ext d m F frameNumber s =
    (case pull ext c s of
       None \<Rightarrow> None
     | Some s \<Rightarrow>
        (case interleave (m_pOut_L ext (world s)) (m_pOut_R ext (world s)) c 0 (pData s) of
           None \<Rightarrow> None
         | Some a \<Rightarrow> chunk_loop ext d m F (frameNumber + c) (write_chunk ext m a (int c) s)))"
proof -
  have c31: "c < 2 ^ 31" using assms by (simp add: c_def min_def)
  then have c32: "c < 2 ^ 32" by simp
  have u: "(if F - frameNumber < m_nBufferSize d then int_of_unsigned (F - frameNumber)
       else int_of_unsigned (m_nBufferSize d)) = int c"
    using assms(2) by (auto simp add: c_def min_def int_of_unsigned_small)
  have "frameNumber + c \<le> F" using assms(3) unfolding c_def min_def by arith
  with assms(4) have f: "(frameNumber + c) mod 2 ^ 32 = frameNumber + c" by simp
  show ?thesis
    by (subst chunk_loop.simps) (simp only: assms(3) if_True Let_def u unsigned_of_int_nat [OF c32] f)
qed

lemma chunk_loop_total:
  assumes ready: "\<forall>n s. pull ext n s \<noteq> None"
    and B: "0 < m_nBufferSize d" "m_nBufferSize d < 2 ^ 31" and F: "F < 2 ^ 32"
    and len: "length (pData s) = 2 * m_nBufferSize d"
  shows "\<exists>t. chunk_loop ext d m F frameNumber s = Some t \<and>
           pulled (trace t) = pulled (trace s) @ map snd (frame_chunks (m_nBufferSize d) F frameNumber) \<and>
           progress (trace t) = progress (trace s) \<and>
           length (pData t) = 2 * m_nBufferSize d"
  using len
proof (induction "F - frameNumber" arbitrary: frameNumber s rule: less_induct)
  case less
  show ?case
  proof (cases "frameNumber < F")
    case False
    then show ?thesis using less.prems
      by (simp add: chunk_loop_done frame_chunks.simps)
  next
    case True
    define c where "c = min (m_nBufferSize d) (F - frameNumber)"
    have cpos: "0 < c" using True B by (simp add: c_def)
    have cB: "c \<le> m_nBufferSize d" by (simp add: c_def)
    from ready obtain s1 where s1: "pull ext c s = Some s1" by (metis not_None_eq)
    note p = pull_pulled [OF s1]
    have "2 * c \<le> length (pData s1)" using cB less.prems p(3) by simp
    moreover have "2 * c \<le> (2::nat) ^ 32" using cB B(2) by simp
    ultimately obtain a where a: "interleave (m_pOut_L ext (world s1)) (m_pOut_R ext (world s1)) c 0 (pData s1) = Some a"
      and la: "length a = length (pData s1)"
      using interleave_inv [of c "pData s1" 0 "m_pOut_L ext (world s1)" "m_pOut_R ext (world s1)"] by auto
    define s2 where "s2 = write_chunk ext m a (int c) s1"
    have step: "chunk_loop ext d m F frameNumber s = chunk_loop ext d m F (frameNumber + c) s2"
      using chunk_loop_step [OF B True F, of ext m s] by (simp add: c_def [symmetric] s1 a s2_def)
    have "F - (frameNumber + c) < F - frameNumber" using True cpos by simp
    moreover have "length (pData s2) = 2 * m_nBufferSize d"
      using la p(3) less.prems by (simp add: s2_def write_chunk_simps)
    ultimately obtain t where t: "chunk_loop ext d m F (frameNumber + c) s2 = Some t"
      "pulled (trace t) = pulled (trace s2) @ map snd (frame_chunks (m_nBufferSize d) F (frameNumber + c))"
      "progress (trace t) = progress (trace s2)" "length (pData t) = 2 * m_nBufferSize d"
      using less.hyps [of "frameNumber + c" s2] by blast
    have fc: "frame_chunks (m_nBufferSize d) F frameNumber = (frameNumber, c) # frame_chunks (m_nBufferSize d) F (frameNumber + c)"
      using True B(1) by (subst frame_chunks.simps) (simp add: c_def)
    show ?thesis
      using t p by (simp add: step fc s2_def write_chunk_simps)
  qed
qed

lemma trunc_nonneg: "0 \<le> x \<Longrightarrow> trunc x = \<lfloor>x\<rfloor>"
  by (simp add: trunc_def)

lemma float_to_int_percent:
  assumes "i < N"
  shows "float_to_int (fPercent i N) = Some \<lfloor>fPercent i N\<rfloor>"
proof -
  have "0 \<le> fPercent i N" by (rule fPercent_nonneg)
  moreover have "fPercent i N \<le> 100" using assms by (rule fPercent_le)
  ultimately show ?thesis by (simp add: float_to_int_def trunc_nonneg)
qed

lemma float_to_unsigned_bound:
  assumes "float_to_unsigned x = Some F"
  shows "F < 2 ^ 32"
proof -
  from assms have x: "- 1 < x" "x < 2 ^ 32" and F: "F = nat (trunc x)"
    by (auto simp add: float_to_unsigned_def split: if_splits)
  have "trunc x < 2 ^ 32"
  proof (cases "0 \<le> x")
    case True
    with x have "\<lfloor>x\<rfloor> < 2 ^ 32" by (simp add: floor_less_iff)
    with True show ?thesis by (simp add: trunc_def)
  next
    case False
    then have "\<lceil>x\<rceil> \<le> 0" by (simp add: ceiling_le_iff)
    with False show ?thesis by (simp add: trunc_def)
  qed
  with F show ?thesis by (simp add: nat_less_iff)
qed

lemma column_frames_bound:
  "column_frames ext d g p = Some F \<Longrightarrow> F < 2 ^ 32"
  by (auto simp add: column_frames_def Let_def split: option.splits dest: float_to_unsigned_bound)

lemma column_loop_done:
  "\<not> p < length (getPatternGroupVector g) \<Longrightarrow> column_loop ext d g m p s = Some s"
  by (subst column_loop.simps) simp

lemma column_loop_step:
  assumes "p < length (getPatternGroupVector g)" and "column_frames ext d g p = Some F"
    and "chunk_loop ext d m F 0 s = Some t"
  shows "column_loop ext d g m p s =
     column_loop ext d g m (p + 1) (emit (Progress \<lfloor>fPercent p (length (getPatternGroupVector g))\<rfloor>) t)"
  using assms by (subst column_loop.simps) (simp add: Let_def float_to_int_percent)

lemma upt_conv_Cons': "p < N \<Longrightarrow> [p..<N] = p # [p + 1..<N]"
  by (simp add: upt_conv_Cons)

lemma column_loop_total:
  assumes ready: "\<forall>n s. pull ext n s \<noteq> None"
    and B: "0 < m_nBufferSize d" "m_nBufferSize d < 2 ^ 31"
    and frames: "\<forall>p < length (getPatternGroupVector g). column_frames ext d g p \<noteq> None"
    and len: "length (pData s) = 2 * m_nBufferSize d"
  shows "\<exists>t. column_loop ext d g m p s = Some t \<and>
           progress (trace t) = progress (trace s) @
             map (\<lambda>p. \<lfloor>fPercent p (length (getPatternGroupVector g))\<rfloor>) [p..<length (getPatternGroupVector g)] \<and>
           pulled (trace t) = pulled (trace s) @
             concat (map (\<lambda>p. map snd (frame_chunks (m_nBufferSize d) (frames_of ext d g p) 0))
               [p..<length (getPatternGroupVector g)])"
  using len
proof (induction "length (getPatternGroupVector g) - p" arbitrary: p s)
  case 0
  then show ?case by (simp add: column_loop_done)
next
  case (Suc k)
  then have p: "p < length (getPatternGroupVector g)" by simp
  with frames obtain F where F: "column_frames ext d g p = Some F" by auto
  from chunk_loop_total [OF ready B column_frames_bound [OF F] Suc.prems, of m 0]
  obtain t where t: "chunk_loop ext d m F 0 s = Some t"
    "pulled (trace t) = pulled (trace s) @ map snd (frame_chunks (m_nBufferSize d) F 0)"
    "progress (trace t) = progress (trace s)" "length (pData t) = 2 * m_nBufferSize d" by blast
  define t' where "t' = emit (Progress \<lfloor>fPercent p (length (getPatternGroupVector g))\<rfloor>) t"
  have "k = length (getPatternGroupVector g) - (p + 1)" using Suc.hyps(2) by simp
  moreover have "length (pData t') = 2 * m_nBufferSize d" using t(4) by (simp add: t'_def)
  ultimately obtain u where u: "column_loop ext d g m (p + 1) t' = Some u"
    "progress (trace u) = progress (trace t') @
       map (\<lambda>p. \<lfloor>fPercent p (length (getPatternGroupVector g))\<rfloor>) [p + 1..<length (getPatternGroupVector g)]"
    "pulled (trace u) = pulled (trace t') @
       concat (map (\<lambda>p. map snd (frame_chunks (m_nBufferSize d) (frames_of ext d g p) 0))
               [p + 1..<length (getPatternGroupVector g)])"
    using Suc.hyps(1) [of "p + 1" t'] by blast
  have pt: "progress (trace t') = progress (trace s) @ [\<lfloor>fPercent p (length (getPatternGroupVector g))\<rfloor>]"
    "pulled (trace t') = pulled (trace s) @ map snd (frame_chunks (m_nBufferSize d) (frames_of ext d g p) 0)"
    using t(2,3) F by (simp_all add: t'_def frames_of_def) (simp_all add: progress_def pulled_def)
  show ?case
    using u pt column_loop_step [OF p F t(1)]
    by (simp add: t'_def [symmetric] upt_conv_Cons' [OF p])
qed

lemma thread_total:
  assumes ready: "\<forall>n s. pull ext n s \<noteq> None"
    and B: "0 < m_nBufferSize d" "m_nBufferSize d < 2 ^ 31"
    and frames: "\<forall>p < length (getPatternGroupVector g). column_frames ext d g p \<noteq> None"
    and check: "sf_format_check ext
      \<lparr>samplerate = int_of_unsigned (m_nSampleRate d), channels = 2,
       format = soundInfo_format (m_sFilename d) (m_nSampleDepth d)\<rparr>"
  shows "\<exists>t. diskWriterDriver_thread ext d g w f = Some (Finished, t) \<and>
           progress (trace t) = 0 #
             map (\<lambda>p. \<lfloor>fPercent p (length (getPatternGroupVector g))\<rfloor>) [0..<length (getPatternGroupVector g)] \<and>
           pulled (trace t) =
             concat (map (\<lambda>p. map snd (frame_chunks (m_nBufferSize d) (frames_of ext d g p) 0))
               [0..<length (getPatternGroupVector g)])"
proof -
  define info where "info = \<lparr>samplerate = int_of_unsigned (m_nSampleRate d), channels = 2,
       format = soundInfo_format (m_sFilename d) (m_nSampleDepth d)\<rparr>"
  obtain h f' where o: "sf_open ext (m_sFilename d) info f = (h, f')"
    by (cases "sf_open ext (m_sFilename d) info f")
  define s where "s = \<lparr>world = play ext w, sink = f',
     pData = replicate ((m_nBufferSize d * 2) mod 2 ^ 32) 0,
     trace = [Progress 0, InfoLog ''DiskWriterDriver thread start'', Play, Open (m_sFilename d) info h]\<rparr>"
  have "m_nBufferSize d * 2 < 2 ^ 32" using B(2) by simp
  then have "length (pData s) = 2 * m_nBufferSize d" by (simp add: s_def)
  from column_loop_total [OF ready B frames this, of h 0]
  obtain t where t: "column_loop ext d g h 0 s = Some t"
    "progress (trace t) = progress (trace s) @
       map (\<lambda>p. \<lfloor>fPercent p (length (getPatternGroupVector g))\<rfloor>) [0..<length (getPatternGroupVector g)]"
    "pulled (trace t) = pulled (trace s) @
       concat (map (\<lambda>p. map snd (frame_chunks (m_nBufferSize d) (frames_of ext d g p) 0))
               [0..<length (getPatternGroupVector g)])" by blast
  have s0: "progress (trace s) = [0]" "pulled (trace s) = []"
    by (simp_all add: s_def progress_def pulled_def)
  have "diskWriterDriver_thread ext d g w f =
     Some (Finished, emit (InfoLog ''DiskWriterDriver thread end'') (emit (Close h) (t\<lparr>sink := sf_close ext h (sink t)\<rparr>)))"
    using check o t(1)
    by (simp add: diskWriterDriver_thread_def Let_def info_def [symmetric] s_def emit_def)
  then show ?thesis using t(2,3) s0
    by (simp add: progress_def pulled_def emit_def)
qed

subsection \<open>Independence of the sound file\<close>

lemma view_append [simp]: "view (xs @ ys) = view xs @ view ys"
  by (simp add: view_def)

lemma view_Nil [simp]: "view [] = []"
  by (simp add: view_def)

lemma view_Cons [simp]: "view (e # es) = view_of e @ view es"
  by (simp add: view_def)

lemma sim_emit: "sim s s' \<Longrightarrow> view_of e = view_of e' \<Longrightarrow> sim (emit e s) (emit e' s')"
  by (simp add: sim_def)

lemma pull_sim:
  assumes "pull ext n s = Some t"
  shows "same_engine ext ext' \<Longrightarrow> sim s s' \<Longrightarrow> \<exists>t'. pull ext' n s' = Some t' \<and> sim t t'"
  using assms
proof (induction ext n s t arbitrary: s' rule: pull.raw_induct [rotated, consumes 1])
  case (1 call ext n s t)
  obtain ret w where cb: "m_processCallback ext n (world s) = (ret, w)"
    by (cases "m_processCallback ext n (world s)")
  with 1(3,4) have cb': "m_processCallback ext' n (world s') = (ret, w)"
    by (simp add: same_engine_def sim_def)
  have s1: "sim (emit (Callback n ret) (s\<lparr>world := w\<rparr>)) (emit (Callback n ret) (s'\<lparr>world := w\<rparr>))"
    using 1(4) by (simp add: sim_def)
  show ?case
  proof (cases "ret = 0")
    case True
    with 1(2) cb have "t = emit (Callback n ret) (s\<lparr>world := w\<rparr>)" by (simp add: Let_def)
    moreover have "pull ext' n s' = Some (emit (Callback n ret) (s'\<lparr>world := w\<rparr>))"
      using True cb' by (subst pull.simps) (simp add: Let_def)
    ultimately show ?thesis using s1 by simp
  next
    case False
    with 1(2) cb have "call ext n (emit (Callback n ret) (s\<lparr>world := w\<rparr>)) = Some t" by (simp add: Let_def)
    from 1(1) [OF this 1(3) s1] obtain t' where
      "pull ext' n (emit (Callback n ret) (s'\<lparr>world := w\<rparr>)) = Some t'" "sim t t'" by blast
    moreover have "pull ext' n s' = pull ext' n (emit (Callback n ret) (s'\<lparr>world := w\<rparr>))"
      using False cb' by (subst pull.simps) (simp add: Let_def)
    ultimately show ?thesis by simp
  qed
qed

lemma write_chunk_sim:
  "sim s s' \<Longrightarrow> sim (write_chunk ext m a u s) (write_chunk ext' m' a u s')"
  by (simp add: write_chunk_def sim_def Let_def split: prod.split)

lemma chunk_loop_sim:
  assumes "chunk_loop ext d m F frameNumber s = Some t"
  shows "same_engine ext ext' \<Longrightarrow> m_nBufferSize d' = m_nBufferSize d \<Longrightarrow> sim s s' \<Longrightarrow>
    \<exists>t'. chunk_loop ext' d' m' F frameNumber s' = Some t' \<and> sim t t'"
  using assms
proof (induction ext d m F frameNumber s t arbitrary: s' rule: chunk_loop.raw_induct [rotated, consumes 1])
  case (1 loop ext d m F frameNumber s t)
  show ?case
  proof (cases "frameNumber < F")
    case False
    with 1(2) have "t = s" by simp
    moreover have "chunk_loop ext' d' m' F frameNumber s' = Some s'"
      using False by (simp add: chunk_loop_done)
    ultimately show ?thesis using 1(5) by simp
  next
    case True
    define u where "u = (if F - frameNumber < m_nBufferSize d then int_of_unsigned (F - frameNumber)
       else int_of_unsigned (m_nBufferSize d))"
    define fn where "fn = (frameNumber + unsigned_of_int u) mod 2 ^ 32"
    from 1(2) True obtain s1 a where s1: "pull ext (unsigned_of_int u) s = Some s1"
      and a: "interleave (m_pOut_L ext (world s1)) (m_pOut_R ext (world s1)) (unsigned_of_int u) 0 (pData s1) = Some a"
      and rec: "loop ext d m F fn (write_chunk ext m a u s1) = Some t"
      by (auto simp add: Let_def u_def fn_def split: option.splits)
    from pull_sim [OF s1 1(3) 1(5)] obtain s1' where s1': "pull ext' (unsigned_of_int u) s' = Some s1'"
      and sim1: "sim s1 s1'" by blast
    from sim1 1(3) a have a': "interleave (m_pOut_L ext' (world s1')) (m_pOut_R ext' (world s1')) (unsigned_of_int u) 0 (pData s1') = Some a"
      by (simp add: sim_def same_engine_def)
    from 1(1) [OF rec 1(3,4) write_chunk_sim [OF sim1]] obtain t' where
      t': "chunk_loop ext' d' m' F fn (write_chunk ext' m' a u s1') = Some t'" and "sim t t'"
      by blast
    have "chunk_loop ext' d' m' F frameNumber s' = Some t'"
      using True s1' a' t' 1(4)
      by (subst chunk_loop.simps) (simp add: Let_def u_def fn_def)
    with \<open>sim t t'\<close> show ?thesis by simp
  qed
qed

lemma column_frames_cong:
  "MAX_NOTES ext' = MAX_NOTES ext \<Longrightarrow> m_nSampleRate d' = m_nSampleRate d \<Longrightarrow>
   column_frames ext' d' g p = column_frames ext d g p"
  by (auto simp add: column_frames_def Let_def split: option.splits)

lemma column_loop_unfold:
  assumes "p < length (getPatternGroupVector g)"
  shows "column_loop ext d g m p s =
    (case column_frames ext d g p of
       None \<Rightarrow> None
     | Some F \<Rightarrow>
        (case chunk_loop ext d m F 0 s of
           None \<Rightarrow> None
         | Some t \<Rightarrow> column_loop ext d g m (p + 1)
             (emit (Progress \<lfloor>fPercent p (length (getPatternGroupVector g))\<rfloor>) t)))"
  using assms
  by (subst column_loop.simps) (simp add: Let_def float_to_int_percent split: option.split)

lemma column_loop_sim:
  assumes se: "same_engine ext ext'"
    and d: "m_nBufferSize d' = m_nBufferSize d" "m_nSampleRate d' = m_nSampleRate d"
  shows "sim s s' \<Longrightarrow> column_loop ext d g m p s = Some t \<Longrightarrow>
    \<exists>t'. column_loop ext' d' g m' p s' = Some t' \<and> sim t t'"
proof (induction "length (getPatternGroupVector g) - p" arbitrary: p s s')
  case 0
  then show ?case by (simp add: column_loop_done)
next
  case (Suc k)
  then have p: "p < length (getPatternGroupVector g)" by simp
  note unf = column_loop_unfold [OF p, of ext d m s]
  have "column_frames ext d g p \<noteq> None"
    using Suc.prems(2) unf by (cases "column_frames ext d g p") simp_all
  then obtain F where F: "column_frames ext d g p = Some F" by auto
  have "chunk_loop ext d m F 0 s \<noteq> None"
    using Suc.prems(2) unf F by (cases "chunk_loop ext d m F 0 s") simp_all
  then obtain t1 where t1: "chunk_loop ext d m F 0 s = Some t1" by auto
  have rec: "column_loop ext d g m (p + 1)
        (emit (Progress \<lfloor>fPercent p (length (getPatternGroupVector g))\<rfloor>) t1) = Some t"
    using Suc.prems(2) unf F t1 by simp
  have F': "column_frames ext' d' g p = Some F"
    using F se d column_frames_cong [of ext' ext d' d g p] by (simp add: same_engine_def)
  from chunk_loop_sim [OF t1 se d(1) Suc.prems(1)] obtain t1' where
    t1': "chunk_loop ext' d' m' F 0 s' = Some t1'" and s1: "sim t1 t1'" by blast
  have "k = length (getPatternGroupVector g) - (p + 1)" using Suc.hyps(2) by simp
  from Suc.hyps(1) [OF this sim_emit [OF s1 refl] rec] obtain t' where
    "column_loop ext' d' g m' (p + 1)
        (emit (Progress \<lfloor>fPercent p (length (getPatternGroupVector g))\<rfloor>) t1') = Some t'" "sim t t'"
    by blast
  then show ?case
    using column_loop_unfold [OF p, of ext' d' m' s'] F' t1' by simp
qed

lemma thread_sim:
  assumes se: "same_engine ext ext'"
    and run: "diskWriterDriver_thread ext d g w f = Some (x, t)"
  shows "\<exists>t'. diskWriterDriver_thread ext' d g w f' = Some (x, t') \<and> sim t t'"
proof -
  define info where "info = \<lparr>samplerate = int_of_unsigned (m_nSampleRate d), channels = 2,
       format = soundInfo_format (m_sFilename d) (m_nSampleDepth d)\<rparr>"
  from se have chk: "sf_format_check ext' = sf_format_check ext" and pl: "play ext' = play ext"
    by (simp_all add: same_engine_def)
  show ?thesis
  proof (cases "sf_format_check ext info")
    case False
    with run show ?thesis
      by (auto simp add: diskWriterDriver_thread_def Let_def info_def [symmetric] chk pl sim_def emit_def)
  next
    case True
    obtain h f1 where o: "sf_open ext (m_sFilename d) info f = (h, f1)"
      by (cases "sf_open ext (m_sFilename d) info f")
    obtain h' f1' where o': "sf_open ext' (m_sFilename d) info f' = (h', f1')"
      by (cases "sf_open ext' (m_sFilename d) info f'")
    define pre where "pre = [Progress 0, InfoLog ''DiskWriterDriver thread start'', Play]"
    define s where "s = \<lparr>world = play ext w, sink = f1,
       pData = replicate ((m_nBufferSize d * 2) mod 2 ^ 32) 0,
       trace = pre @ [Open (m_sFilename d) info h]\<rparr>"
    define s' where "s' = \<lparr>world = play ext w, sink = f1',
       pData = replicate ((m_nBufferSize d * 2) mod 2 ^ 32) 0,
       trace = pre @ [Open (m_sFilename d) info h']\<rparr>"
    have ss: "sim s s'" by (simp add: sim_def s_def s'_def)
    from run True o obtain t1 where t1: "column_loop ext d g h 0 s = Some t1"
      and t: "t = emit (InfoLog ''DiskWriterDriver thread end'') (emit (Close h) (t1\<lparr>sink := sf_close ext h (sink t1)\<rparr>))"
      and x: "x = Finished"
      by (auto simp add: diskWriterDriver_thread_def Let_def info_def [symmetric] s_def pre_def emit_def
          split: option.splits)
    from column_loop_sim [OF se refl refl ss t1] obtain t1' where
      t1': "column_loop ext' d g h' 0 s' = Some t1'" and s1: "sim t1 t1'" by blast
    have "diskWriterDriver_thread ext' d g w f' = Some (Finished,
        emit (InfoLog ''DiskWriterDriver thread end'') (emit (Close h') (t1'\<lparr>sink := sf_close ext' h' (sink t1')\<rparr>)))"
      using True o' t1'
      by (simp add: diskWriterDriver_thread_def Let_def info_def [symmetric] s'_def pre_def emit_def chk pl)
    moreover have "sim t (emit (InfoLog ''DiskWriterDriver thread end'') (emit (Close h') (t1'\<lparr>sink := sf_close ext' h' (sink t1')\<rparr>)))"
      using s1 by (simp add: t sim_def)
    ultimately show ?thesis using x by simp
  qed
qed

subsection \<open>The shape of a trace\<close>

lemma chunk_effect_column: "chunk_effect m e \<Longrightarrow> column_effect m e"
  by (cases e) simp_all

lemma pull_shape:
  assumes "pull ext n s = Some t"
  shows "\<exists>tr. trace t = trace s @ tr \<and> (\<forall>e \<in> set tr. chunk_effect m e)"
proof -
  from pull_trace [OF assms] obtain rets where
    "trace t = trace s @ map (Callback n) rets @ [Callback n 0]" by blast
  moreover have "\<forall>e \<in> set (map (Callback n) rets @ [Callback n 0]). chunk_effect m e" by auto
  ultimately show ?thesis by blast
qed

lemma write_chunk_shape:
  "\<exists>tr. trace (write_chunk ext m a u s) = trace s @ tr \<and> (\<forall>e \<in> set tr. chunk_effect m e)"
proof (cases "sf_writef_float ext m (take (2 * nat u) a) u (sink s)")
  case (Pair res f)
  show ?thesis
  proof (cases "res = u")
    case True
    with Pair have "trace (write_chunk ext m a u s) = trace s @ [Writef m (take (2 * nat u) a) u res]"
      by (simp add: write_chunk_def)
    moreover have "\<forall>e \<in> set [Writef m (take (2 * nat u) a) u res]. chunk_effect m e" by simp
    ultimately show ?thesis by blast
  next
    case False
    with Pair have "trace (write_chunk ext m a u s) = trace s @
        [Writef m (take (2 * nat u) a) u res, ErrorLog ''Error during sf_write_float'']"
      by (simp add: write_chunk_def)
    moreover have "\<forall>e \<in> set [Writef m (take (2 * nat u) a) u res, ErrorLog ''Error during sf_write_float'']. chunk_effect m e" by simp
    ultimately show ?thesis by blast
  qed
qed

lemma chunk_loop_shape:
  assumes "chunk_loop ext d m F frameNumber s = Some t"
  shows "\<exists>tr. trace t = trace s @ tr \<and> (\<forall>e \<in> set tr. chunk_effect m e)"
  using assms
proof (induction ext d m F frameNumber s t rule: chunk_loop.raw_induct [rotated, consumes 1])
  case (1 loop ext d m F frameNumber s t)
  show ?case
  proof (cases "frameNumber < F")
    case False
    with 1(2) have "trace t = trace s @ []" by simp
    then show ?thesis by (intro exI [of _ "[]"]) simp
  next
    case True
    define u where "u = (if F - frameNumber < m_nBufferSize d then int_of_unsigned (F - frameNumber)
       else int_of_unsigned (m_nBufferSize d))"
    define fn where "fn = (frameNumber + unsigned_of_int u) mod 2 ^ 32"
    from 1(2) True obtain s1 a where s1: "pull ext (unsigned_of_int u) s = Some s1"
      and rec: "loop ext d m F fn (write_chunk ext m a u s1) = Some t"
      by (auto simp add: Let_def u_def fn_def split: option.splits)
    from pull_shape [OF s1, of m] obtain tr1 where
      tr1: "trace s1 = trace s @ tr1" "\<forall>e \<in> set tr1. chunk_effect m e" by blast
    from write_chunk_shape [of ext m a u s1] obtain tr2 where
      tr2: "trace (write_chunk ext m a u s1) = trace s1 @ tr2" "\<forall>e \<in> set tr2. chunk_effect m e" by blast
    from 1(1) [OF rec] obtain tr3 where
      tr3: "trace t = trace (write_chunk ext m a u s1) @ tr3" "\<forall>e \<in> set tr3. chunk_effect m e" by blast
    have "trace t = trace s @ (tr1 @ tr2 @ tr3)" by (simp add: tr1 tr2 tr3)
    moreover have "\<forall>e \<in> set (tr1 @ tr2 @ tr3). chunk_effect m e" using tr1 tr2 tr3 by auto
    ultimately show ?thesis by blast
  qed
qed

lemma column_loop_shape:
  "column_loop ext d g m p s = Some t \<Longrightarrow>
    \<exists>tr. trace t = trace s @ tr \<and> (\<forall>e \<in> set tr. column_effect m e)"
proof (induction "length (getPatternGroupVector g) - p" arbitrary: p s)
  case 0
  then have "trace t = trace s @ []" by (simp add: column_loop_done)
  then show ?case by (intro exI [of _ "[]"]) simp
next
  case (Suc k)
  then have p: "p < length (getPatternGroupVector g)" by simp
  note unf = column_loop_unfold [OF p, of ext d m s]
  have "column_frames ext d g p \<noteq> None"
    using Suc.prems unf by (cases "column_frames ext d g p") simp_all
  then obtain F where F: "column_frames ext d g p = Some F" by auto
  have "chunk_loop ext d m F 0 s \<noteq> None"
    using Suc.prems unf F by (cases "chunk_loop ext d m F 0 s") simp_all
  then obtain t1 where t1: "chunk_loop ext d m F 0 s = Some t1" by auto
  define v where "v = \<lfloor>fPercent p (length (getPatternGroupVector g))\<rfloor>"
  have rec: "column_loop ext d g m (p + 1) (emit (Progress v) t1) = Some t"
    using Suc.prems unf F t1 by (simp add: v_def)
  from chunk_loop_shape [OF t1] obtain tr1 where
    tr1: "trace t1 = trace s @ tr1" "\<forall>e \<in> set tr1. chunk_effect m e" by blast
  have "k = length (getPatternGroupVector g) - (p + 1)" using Suc.hyps(2) by simp
  from Suc.hyps(1) [OF this rec] obtain tr2 where
    tr2: "trace t = trace (emit (Progress v) t1) @ tr2" "\<forall>e \<in> set tr2. column_effect m e" by blast
  have "trace t = trace s @ (tr1 @ Progress v # tr2)" by (simp add: tr1 tr2)
  moreover have "\<forall>e \<in> set (tr1 @ Progress v # tr2). column_effect m e"
    using tr1 tr2 by (auto intro: chunk_effect_column)
  ultimately show ?case by blast
qed

lemma thread_shape:
  assumes run: "diskWriterDriver_thread ext d g w f = Some (x, t)"
  defines "info \<equiv> \<lparr>samplerate = int_of_unsigned (m_nSampleRate d), channels = 2,
       format = soundInfo_format (m_sFilename d) (m_nSampleDepth d)\<rparr>"
  shows "(\<not> sf_format_check ext info \<and> x = SoundInfoError \<and>
           trace t = [Progress 0, InfoLog ''DiskWriterDriver thread start'', Play,
                      ErrorLog ''Error in soundInfo'']) \<or>
         (sf_format_check ext info \<and> x = Finished \<and>
           (\<exists>tr. trace t = [Progress 0, InfoLog ''DiskWriterDriver thread start'', Play,
                      Open (m_sFilename d) info (fst (sf_open ext (m_sFilename d) info f))] @ tr @
                     [Close (fst (sf_open ext (m_sFilename d) info f)), InfoLog ''DiskWriterDriver thread end''] \<and>
                 (\<forall>e \<in> set tr. column_effect (fst (sf_open ext (m_sFilename d) info f)) e)))"
proof (cases "sf_format_check ext info")
  case False
  with run show ?thesis
    by (auto simp add: diskWriterDriver_thread_def Let_def info_def emit_def)
next
  case True
  obtain h f1 where o: "sf_open ext (m_sFilename d) info f = (h, f1)"
    by (cases "sf_open ext (m_sFilename d) info f")
  define s where "s = \<lparr>world = play ext w, sink = f1,
       pData = replicate ((m_nBufferSize d * 2) mod 2 ^ 32) 0,
       trace = [Progress 0, InfoLog ''DiskWriterDriver thread start'', Play, Open (m_sFilename d) info h]\<rparr>"
  have unf: "diskWriterDriver_thread ext d g w f =
      (case column_loop ext d g h 0 s of None \<Rightarrow> None
       | Some t1 \<Rightarrow> Some (Finished, emit (InfoLog ''DiskWriterDriver thread end'')
            (emit (Close h) (t1\<lparr>sink := sf_close ext h (sink t1)\<rparr>))))"
    using True o
    by (simp add: diskWriterDriver_thread_def Let_def info_def [symmetric] s_def emit_def split: option.split)
  have "column_loop ext d g h 0 s \<noteq> None"
    using run unf by (cases "column_loop ext d g h 0 s") simp_all
  then obtain t1 where t1: "column_loop ext d g h 0 s = Some t1" by auto
  with run unf have x: "x = Finished"
    and t: "t = emit (InfoLog ''DiskWriterDriver thread end'') (emit (Close h) (t1\<lparr>sink := sf_close ext h (sink t1)\<rparr>))"
    by simp_all
  from column_loop_shape [OF t1] obtain tr where
    tr: "trace t1 = trace s @ tr" "\<forall>e \<in> set tr. column_effect h e" by blast
  have "trace t = [Progress 0, InfoLog ''DiskWriterDriver thread start'', Play, Open (m_sFilename d) info h] @ tr @
      [Close h, InfoLog ''DiskWriterDriver thread end'']"
    by (simp add: t tr s_def)
  with True x tr(2) o show ?thesis by auto
qed

lemma chunk_loop_cong:
  assumes "chunk_loop ext d m F frameNumber s = Some t"
  shows "m_nBufferSize d' = m_nBufferSize d \<Longrightarrow> chunk_loop ext d' m F frameNumber s = Some t"
  using assms
proof (induction ext d m F frameNumber s t rule: chunk_loop.raw_induct [rotated, consumes 1])
  case (1 loop ext d m F frameNumber s t)
  show ?case
  proof (cases "frameNumber < F")
    case False
    with 1(2) show ?thesis by (simp add: chunk_loop_done)
  next
    case True
    define u where "u = (if F - frameNumber < m_nBufferSize d then int_of_unsigned (F - frameNumber)
       else int_of_unsigned (m_nBufferSize d))"
    define fn where "fn = (frameNumber + unsigned_of_int u) mod 2 ^ 32"
    from 1(2) True obtain s1 a where s1: "pull ext (unsigned_of_int u) s = Some s1"
      and a: "interleave (m_pOut_L ext (world s1)) (m_pOut_R ext (world s1)) (unsigned_of_int u) 0 (pData s1) = Some a"
      and rec: "loop ext d m F fn (write_chunk ext m a u s1) = Some t"
      by (auto simp add: Let_def u_def fn_def split: option.splits)
    from 1(1) [OF rec 1(3)] have "chunk_loop ext d' m F fn (write_chunk ext m a u s1) = Some t" .
    then show ?thesis
      using True s1 a 1(3)
      by (subst chunk_loop.simps) (simp add: Let_def u_def fn_def)
  qed
qed

lemma option_eqI:
  "(\<And>t. a = Some t \<Longrightarrow> b = Some t) \<Longrightarrow> (\<And>t. b = Some t \<Longrightarrow> a = Some t) \<Longrightarrow> a = b"
  by (cases a; cases b) auto

lemma chunk_loop_depth:
  "chunk_loop ext (d\<lparr>m_nSampleDepth := x\<rparr>) m F frameNumber s = chunk_loop ext d m F frameNumber s"
  by (rule option_eqI) (erule chunk_loop_cong, simp)+

lemma column_loop_depth:
  "column_loop ext (d\<lparr>m_nSampleDepth := x\<rparr>) g m p s = column_loop ext d g m p s"
proof (induction "length (getPatternGroupVector g) - p" arbitrary: p s)
  case 0
  then show ?case by (simp add: column_loop_done)
next
  case (Suc k)
  then have p: "p < length (getPatternGroupVector g)" by simp
  have "k = length (getPatternGroupVector g) - (p + 1)" using Suc.hyps(2) by simp
  note IH = Suc.hyps(1) [OF this]
  have "column_frames ext (d\<lparr>m_nSampleDepth := x\<rparr>) g p = column_frames ext d g p"
    by (rule column_frames_cong) simp_all
  with IH show ?case
    by (simp add: column_loop_unfold [OF p] chunk_loop_depth split: option.split)
qed

subsection \<open>The format check\<close>

text \<open>
  C6. When \<^verbatim>\<open>sf_format_check\<close> rejects the format, the thread returns through its error
  exit after the initial progress event, the log line, the start of the transport and the
  error line: \<^verbatim>\<open>sf_open\<close> is not called, the state of the sound file library is the one
  the thread started with, and the callback and \<^verbatim>\<open>sf_writef_float\<close> are not called.
\<close>

theorem format_check_failure:
  assumes "\<not> sf_format_check ext
      \<lparr>samplerate = int_of_unsigned (m_nSampleRate pDriver), channels = 2,
       format = soundInfo_format (m_sFilename pDriver) (m_nSampleDepth pDriver)\<rparr>"
  shows "diskWriterDriver_thread ext pDriver pSong w f =
    Some (SoundInfoError,
      \<lparr>world = play ext w, sink = f, pData = [],
       trace = [Progress 0, InfoLog ''DiskWriterDriver thread start'', Play,
                ErrorLog ''Error in soundInfo'']\<rparr>)"
  using assms by (simp add: diskWriterDriver_thread_def emit_def)

theorem format_check_failure_witness:
  "\<not> sf_format_check (silence\<lparr>sf_format_check := (\<lambda>info. False)\<rparr>)
      \<lparr>samplerate = int_of_unsigned (m_nSampleRate driver_A), channels = 2,
       format = soundInfo_format (m_sFilename driver_A) (m_nSampleDepth driver_A)\<rparr> \<and>
   diskWriterDriver_thread (silence\<lparr>sf_format_check := (\<lambda>info. False)\<rparr>) driver_A song_A () () =
    Some (SoundInfoError,
      \<lparr>world = (), sink = (), pData = [],
       trace = [Progress 0, InfoLog ''DiskWriterDriver thread start'', Play,
                ErrorLog ''Error in soundInfo'']\<rparr>)"
  using format_check_failure [of "silence\<lparr>sf_format_check := (\<lambda>info. False)\<rparr>" driver_A song_A "()" "()"]
  by (simp add: silence_def)

subsection \<open>The chunks of a column\<close>

lemma silence_ready: "\<forall>n s. pull silence n s \<noteq> None"
proof (intro allI)
  fix n and s :: "(unit, unit) state"
  show "pull silence n s \<noteq> None"
    by (subst pull.simps) (simp add: silence_def Let_def)
qed

text \<open>
  C2. Let the buffer size \<open>B\<close> be positive, and below \<open>2 ^ 31\<close>, so that the array of
  \<open>2 * B\<close> samples has that size. Whenever the callback becomes ready at every pull, the
  loop over a column of \<open>frames\<close> frames returns, and the frame counts of its pulls are the
  lengths of the chunks of the specification: each is the smaller of \<open>B\<close> and what is left
  after its offset, all are \<open>B\<close> except a last one of \<open>frames mod B\<close> when that is not 0,
  they add up to \<open>frames\<close>, and the offsets, each the sum of the lengths before it, increase
  strictly.
\<close>

theorem chunk_sizes:
  assumes "\<forall>n s. pull ext n s \<noteq> None"
    and "0 < m_nBufferSize pDriver" and "m_nBufferSize pDriver < 2 ^ 31"
    and "frames < 2 ^ 32"
    and "length (pData s) = 2 * m_nBufferSize pDriver"
  shows "\<exists>t. chunk_loop ext pDriver m_file frames 0 s = Some t \<and>
      pulled (trace t) = pulled (trace s) @ map snd (frame_chunks (m_nBufferSize pDriver) frames 0) \<and>
      (\<forall>(off, n) \<in> set (frame_chunks (m_nBufferSize pDriver) frames 0).
          n = min (m_nBufferSize pDriver) (frames - off)) \<and>
      map snd (frame_chunks (m_nBufferSize pDriver) frames 0) =
        replicate (frames div m_nBufferSize pDriver) (m_nBufferSize pDriver) @
        (if frames mod m_nBufferSize pDriver = 0 then [] else [frames mod m_nBufferSize pDriver]) \<and>
      sum_list (map snd (frame_chunks (m_nBufferSize pDriver) frames 0)) = frames \<and>
      sorted_wrt (<) (map fst (frame_chunks (m_nBufferSize pDriver) frames 0)) \<and>
      (\<forall>k < length (frame_chunks (m_nBufferSize pDriver) frames 0).
          fst (frame_chunks (m_nBufferSize pDriver) frames 0 ! k) =
          sum_list (take k (map snd (frame_chunks (m_nBufferSize pDriver) frames 0))))"
proof -
  from chunk_loop_total [OF assms(1,2,3,4,5), of m_file 0] obtain t where
    t: "chunk_loop ext pDriver m_file frames 0 s = Some t"
      "pulled (trace t) = pulled (trace s) @ map snd (frame_chunks (m_nBufferSize pDriver) frames 0)"
    by blast
  have a: "\<forall>(off, n) \<in> set (frame_chunks (m_nBufferSize pDriver) frames 0).
          n = min (m_nBufferSize pDriver) (frames - off)"
    using frame_chunks_min by blast
  have b: "map snd (frame_chunks (m_nBufferSize pDriver) frames 0) =
        replicate (frames div m_nBufferSize pDriver) (m_nBufferSize pDriver) @
        (if frames mod m_nBufferSize pDriver = 0 then [] else [frames mod m_nBufferSize pDriver])"
    using frame_chunks_sizes [OF assms(2), of 0 frames] by simp
  have c: "sum_list (map snd (frame_chunks (m_nBufferSize pDriver) frames 0)) = frames"
    using frame_chunks_sum [OF assms(2), of 0 frames] by simp
  have d: "sorted_wrt (<) (map fst (frame_chunks (m_nBufferSize pDriver) frames 0))"
    by (rule frame_chunks_offsets)
  have e: "\<forall>k < length (frame_chunks (m_nBufferSize pDriver) frames 0).
          fst (frame_chunks (m_nBufferSize pDriver) frames 0 ! k) =
          sum_list (take k (map snd (frame_chunks (m_nBufferSize pDriver) frames 0)))"
    using frame_chunks_prefix_sums [of _ "m_nBufferSize pDriver" frames 0] by simp
  from t a b c d e show ?thesis by blast
qed

theorem chunk_sizes_witness:
  "(\<forall>n s. pull silence n s \<noteq> None) \<and> 0 < m_nBufferSize driver_A \<and>
   m_nBufferSize driver_A < 2 ^ 31 \<and> (48000::nat) < 2 ^ 32 \<and>
   length (pData start_A) = 2 * m_nBufferSize driver_A \<and>
   (\<exists>t. chunk_loop silence driver_A True 48000 0 start_A = Some t \<and>
        pulled (trace t) = [16384, 16384, 15232])"
proof -
  have h: "0 < m_nBufferSize driver_A" "m_nBufferSize driver_A < 2 ^ 31" "(48000::nat) < 2 ^ 32"
    "length (pData start_A) = 2 * m_nBufferSize driver_A"
    by (simp_all add: driver_A_def start_A_def)
  from chunk_sizes [OF silence_ready h, of True] obtain t where
    "chunk_loop silence driver_A True 48000 0 start_A = Some t"
    "pulled (trace t) = pulled (trace start_A) @ map snd (frame_chunks (m_nBufferSize driver_A) 48000 0)"
    "map snd (frame_chunks (m_nBufferSize driver_A) 48000 0) =
        replicate (48000 div m_nBufferSize driver_A) (m_nBufferSize driver_A) @
        (if 48000 mod m_nBufferSize driver_A = 0 then [] else [48000 mod m_nBufferSize driver_A])"
    by blast
  then have "chunk_loop silence driver_A True 48000 0 start_A = Some t \<and>
        pulled (trace t) = [16384, 16384, 15232]"
    by (simp add: driver_A_def start_A_def pulled_def numeral_2_eq_2)
  with silence_ready h show ?thesis by blast
qed

subsection \<open>The frames of a group\<close>

lemma f32_numeral: "numeral k \<le> (2 ^ 24 :: nat) \<Longrightarrow> f32 (numeral k) = numeral k"
  using f32_nat [of "numeral k"] by simp

lemma f32_zero: "f32 0 = 0"
  by (simp add: f32_def fround_def)

lemma column_frames_eq:
  assumes "0 < getBpmAtColumn g p" and "0 < getResolution g" and "0 \<le> group_length ext g p"
    and "f32 (group_ticksize d g p * f32 (of_int (group_length ext g p))) < 2 ^ 32"
  shows "column_frames ext d g p = Some (float_frames ext d g p)"
proof -
  define x where "x = f32 (group_ticksize d g p * f32 (of_int (group_length ext g p)))"
  have "0 \<le> real (m_nSampleRate d) * 60 / (getBpmAtColumn g p * of_int (getResolution g))"
    using assms(1,2) by simp
  then have "0 \<le> group_ticksize d g p" unfolding group_ticksize_def by (rule f32_nonneg)
  moreover have "0 \<le> f32 (of_int (group_length ext g p))" using assms(3) by (intro f32_nonneg) simp
  ultimately have "0 \<le> group_ticksize d g p * f32 (of_int (group_length ext g p))"
    by (rule mult_nonneg_nonneg)
  then have "0 \<le> x" unfolding x_def by (rule f32_nonneg)
  with assms(4) have fu: "float_to_unsigned x = Some (nat \<lfloor>x\<rfloor>)"
    by (simp add: float_to_unsigned_def trunc_nonneg x_def)
  have "getBpmAtColumn g p * of_int (getResolution g) \<noteq> 0" using assms(1,2) by simp
  then have tick: "computeTickSize (m_nSampleRate d) (getBpmAtColumn g p) (getResolution g) =
      Some (group_ticksize d g p)"
    by (simp add: computeTickSize_def group_ticksize_def)
  have len: "(if length (getPatternGroupVector g ! p) \<noteq> 0
       then longest_pattern_length (getPatternGroupVector g ! p) else MAX_NOTES ext) =
      group_length ext g p"
    by (simp add: group_length_def longest_pattern_length_def)
  show ?thesis
    by (simp only: column_frames_def Let_def tick len option.case fu [unfolded x_def]
        float_frames_def)
qed

lemma renderable_frames:
  assumes "renderable ext d g" and "p < length (getPatternGroupVector g)"
  shows "column_frames ext d g p = Some (float_frames ext d g p)"
  using assms by (intro column_frames_eq) (simp_all add: renderable_def)

lemma renderable_total:
  assumes "renderable ext d g"
  shows "\<forall>p < length (getPatternGroupVector g). column_frames ext d g p \<noteq> None"
  using renderable_frames [OF assms] by simp

lemma rne_error: "\<bar>of_int (rne y) - y\<bar> \<le> 1 / 2"
proof -
  have "of_int \<lfloor>y\<rfloor> \<le> y" "y < of_int \<lfloor>y\<rfloor> + 1" by linarith+
  then show ?thesis by (auto simp add: rne_def Let_def)
qed

lemma fround_error:
  assumes "0 \<le> x" and "0 < p"
  shows "\<bar>fround p x - x\<bar> \<le> x / 2 ^ p"
proof (cases "x = 0")
  case True then show ?thesis by (simp add: fround_def)
next
  case False
  with assms have x: "0 < x" by simp
  define e where "e = bexp x - (int p - 1)"
  define y where "y = x / 2 powi e"
  have xy: "x = y * 2 powi e" by (simp add: y_def)
  have fr: "fround p x = of_int (rne y) * 2 powi e"
    unfolding y_def e_def using x by (rule fround_pos_eq)
  from fr xy have "fround p x - x = of_int (rne y) * 2 powi e - y * 2 powi e" by linarith
  then have "fround p x - x = (of_int (rne y) - y) * 2 powi e"
    by (simp only: left_diff_distrib)
  then have "\<bar>fround p x - x\<bar> = \<bar>of_int (rne y) - y\<bar> * 2 powi e"
    by (simp add: abs_mult)
  also have "\<dots> \<le> 1 / 2 * 2 powi e"
    by (intro mult_right_mono rne_error) simp
  also have "\<dots> \<le> x / 2 ^ p"
  proof -
    have "2 ^ (p - 1) * 2 powi e \<le> x" by (rule scaled_bounds) (fact x e_def \<open>0 < p\<close>)+
    moreover have "(2::real) ^ p = 2 * 2 ^ (p - 1)" using \<open>0 < p\<close> by (cases p) simp_all
    ultimately show ?thesis by (simp add: field_simps)
  qed
  finally show ?thesis .
qed

lemma f32_error: "0 \<le> x \<Longrightarrow> \<bar>f32 x - x\<bar> \<le> x / 2 ^ 24"
  unfolding f32_def by (rule fround_error) simp_all

lemma float_product_error:
  fixes t l :: real
  assumes "0 \<le> t" and "0 \<le> l"
  shows "\<bar>f32 (f32 t * f32 l) - t * l\<bar> \<le> t * l / 2 ^ 22"
proof -
  define u :: real where "u = 1 / 2 ^ 24"
  define a where "a = f32 t"
  define b where "b = f32 l"
  define c where "c = f32 (a * b)"
  have u: "0 \<le> u" "u \<le> 1" by (simp_all add: u_def)
  have a0: "0 \<le> a" and b0: "0 \<le> b" using assms by (simp_all add: a_def b_def f32_nonneg)
  have d: "x * (1 - u) = x - x * u" "x * (1 + u) = x + x * u" for x :: real
    by (simp_all add: algebra_simps)
  have "\<bar>a - t\<bar> \<le> t * u" using f32_error [OF assms(1)] by (simp add: a_def u_def)
  then have a: "t * (1 - u) \<le> a" "a \<le> t * (1 + u)" unfolding d by linarith+
  have "\<bar>b - l\<bar> \<le> l * u" using f32_error [OF assms(2)] by (simp add: b_def u_def)
  then have b: "l * (1 - u) \<le> b" "b \<le> l * (1 + u)" unfolding d by linarith+
  have ab0: "0 \<le> a * b" using a0 b0 by simp
  have "\<bar>c - a * b\<bar> \<le> a * b * u" using f32_error [OF ab0] by (simp add: c_def u_def)
  then have c: "a * b * (1 - u) \<le> c" "c \<le> a * b * (1 + u)" unfolding d by linarith+
  have "a * b \<le> (t * (1 + u)) * (l * (1 + u))"
    using a(2) b(2) a0 b0 assms u by (intro mult_mono) simp_all
  then have "a * b * (1 + u) \<le> (t * (1 + u)) * (l * (1 + u)) * (1 + u)"
    using u by (intro mult_right_mono) simp_all
  with c(2) have up: "c \<le> t * l * ((1 + u) * (1 + u) * (1 + u))" by (simp add: mult_ac)
  have "(t * (1 - u)) * (l * (1 - u)) \<le> a * b"
    using a(1) b(1) a0 b0 assms u by (intro mult_mono) simp_all
  then have "(t * (1 - u)) * (l * (1 - u)) * (1 - u) \<le> a * b * (1 - u)"
    using u by (intro mult_right_mono) simp_all
  with c(1) have lo: "t * l * ((1 - u) * (1 - u) * (1 - u)) \<le> c" by (simp add: mult_ac)
  have tl: "0 \<le> t * l" using assms by simp
  have "(1 + u) * (1 + u) * (1 + u) \<le> 1 + 4 * u" by (simp add: u_def)
  then have "t * l * ((1 + u) * (1 + u) * (1 + u)) \<le> t * l * (1 + 4 * u)"
    using tl by (rule mult_left_mono)
  with up have up': "c \<le> t * l * (1 + 4 * u)" by simp
  have "1 - 4 * u \<le> (1 - u) * (1 - u) * (1 - u)" by (simp add: u_def)
  then have "t * l * (1 - 4 * u) \<le> t * l * ((1 - u) * (1 - u) * (1 - u))"
    using tl by (rule mult_left_mono)
  with lo have lo': "t * l * (1 - 4 * u) \<le> c" by simp
  have e1: "t * l * (1 + 4 * u) = t * l + t * l / 2 ^ 22"
    unfolding u_def by (simp only: distrib_left) simp
  have e2: "t * l * (1 - 4 * u) = t * l - t * l / 2 ^ 22"
    unfolding u_def by (simp only: right_diff_distrib) simp
  from up' lo' have "\<bar>c - t * l\<bar> \<le> t * l / 2 ^ 22"
    unfolding e1 e2 by linarith
  then show ?thesis by (simp add: c_def a_def b_def)
qed

lemma spec_ticksize_nonneg:
  assumes "0 < getBpmAtColumn g p" and "0 < getResolution g"
  shows "0 \<le> spec_ticksize d g p"
  using assms by (simp add: spec_ticksize_def)

lemma group_ticksize_spec: "group_ticksize d g p = f32 (spec_ticksize d g p)"
  by (simp add: group_ticksize_def spec_ticksize_def)

lemma float_frames_error:
  assumes "0 < getBpmAtColumn g p" and "0 < getResolution g" and "0 \<le> group_length ext g p"
  shows "\<bar>real (float_frames ext d g p) -
            spec_ticksize d g p * of_int (group_length ext g p)\<bar> <
         1 + spec_ticksize d g p * of_int (group_length ext g p) / 2 ^ 22"
proof -
  define t where "t = spec_ticksize d g p"
  define l :: real where "l = of_int (group_length ext g p)"
  define c where "c = f32 (f32 t * f32 l)"
  have t: "0 \<le> t" unfolding t_def using assms(1,2) by (rule spec_ticksize_nonneg)
  have l: "0 \<le> l" using assms(3) by (simp add: l_def)
  have "0 \<le> f32 t * f32 l" using t l by (intro mult_nonneg_nonneg f32_nonneg)
  then have c: "0 \<le> c" unfolding c_def by (rule f32_nonneg)
  have e: "\<bar>c - t * l\<bar> \<le> t * l / 2 ^ 22"
    unfolding c_def using t l by (rule float_product_error)
  have "float_frames ext d g p = nat \<lfloor>c\<rfloor>"
    by (simp add: float_frames_def group_ticksize_spec c_def t_def l_def)
  moreover have "real (nat \<lfloor>c\<rfloor>) = of_int \<lfloor>c\<rfloor>" using c by simp
  moreover have "of_int \<lfloor>c\<rfloor> \<le> c" "c < of_int \<lfloor>c\<rfloor> + 1" by linarith+
  ultimately have "\<bar>real (float_frames ext d g p) - t * l\<bar> < 1 + t * l / 2 ^ 22"
    using e by linarith
  then show ?thesis by (simp only: t_def l_def)
qed

lemma float_frames_exact:
  assumes "0 < getBpmAtColumn g p" and "0 < getResolution g" and "0 \<le> group_length ext g p"
    and "group_length ext g p \<le> 2 ^ 24"
    and "representable 24 (spec_ticksize d g p)"
    and "representable 24 (spec_ticksize d g p * of_int (group_length ext g p))"
  shows "int (float_frames ext d g p) = spec_frames ext d g p"
proof -
  define t where "t = spec_ticksize d g p"
  define n where "n = nat (group_length ext g p)"
  have l: "of_int (group_length ext g p) = real n" using assms(3) by (simp add: n_def)
  have t: "0 \<le> t" unfolding t_def using assms(1,2) by (rule spec_ticksize_nonneg)
  have "n \<le> 2 ^ 24" using assms(3,4) by (simp add: n_def nat_le_iff)
  then have fl: "f32 (real n) = real n" by (rule f32_nat)
  from assms(5) t have ft: "f32 t = t" unfolding f32_def t_def by (intro fround_id) simp_all
  have tl: "0 \<le> t * real n" using t by simp
  with assms(6) have fp: "f32 (t * real n) = t * real n"
    unfolding f32_def t_def l by (intro fround_id) simp_all
  have "float_frames ext d g p = nat \<lfloor>t * real n\<rfloor>"
    by (simp add: float_frames_def group_ticksize_spec t_def [symmetric] l ft fl fp)
  moreover have "spec_frames ext d g p = \<lfloor>t * real n\<rfloor>"
    by (simp add: spec_frames_def t_def l)
  moreover have "0 \<le> \<lfloor>t * real n\<rfloor>" using tl by simp
  ultimately show ?thesis by simp
qed


lemma scene_A:
  "length (getPatternGroupVector song_A) = 2" "0 < getResolution song_A"
  "0 < getBpmAtColumn song_A p" "m_nBufferSize driver_A = 16384"
  by (simp_all add: song_A_def driver_A_def)

lemma length_A: "p < 2 \<Longrightarrow> group_length silence song_A p = 96"
  by (cases p) (simp_all add: group_length_def song_A_def)

lemma ticksize_A: "group_ticksize driver_A song_A p = 500"
  by (simp add: group_ticksize_def song_A_def driver_A_def f32_numeral)

lemma frames_A: "p < 2 \<Longrightarrow> float_frames silence driver_A song_A p = 48000"
  by (simp add: float_frames_def length_A ticksize_A f32_numeral)

lemma renderable_A: "renderable silence driver_A song_A"
  by (simp add: renderable_def scene_A length_A ticksize_A f32_numeral)

lemma spec_ticksize_A: "spec_ticksize driver_A song_A p = 500"
  by (simp add: spec_ticksize_def song_A_def driver_A_def)

lemma scene_check:
  "sf_format_check silence
      \<lparr>samplerate = int_of_unsigned (m_nSampleRate driver_A), channels = 2,
       format = soundInfo_format (m_sFilename driver_A) (m_nSampleDepth driver_A)\<rparr>"
  "0 < m_nBufferSize driver_A" "m_nBufferSize driver_A < 2 ^ 31"
  by (simp_all add: silence_def driver_A_def)


lemma scene_46:
  "length (getPatternGroupVector song_46) = 1" "0 < getResolution song_46"
  "0 < getBpmAtColumn song_46 p"
  by (simp_all add: song_46_def)

lemma length_46: "group_length silence song_46 0 = 23"
  by (simp add: group_length_def song_46_def)

lemma spec_ticksize_46: "spec_ticksize driver_A song_46 p = 30000 / 23"
  by (simp add: spec_ticksize_def song_46_def driver_A_def)

lemma f32_ticksize_46: "f32 (30000 / 23) = 10685217 / 2 ^ 13"
proof -
  have "f32 (30000 / 23) = of_int (rne (30000 / 23 / 2 powi (- 13))) * 2 powi (- 13)"
    unfolding f32_def by (rule fround_eval [where b = 10]) simp_all
  also have "\<dots> = 10685217 / 2 ^ 13" by (simp add: rne_def Let_def)
  finally show ?thesis .
qed

lemma f32_product_46: "f32 (10685217 / 2 ^ 13 * 23) = 15359999 / 2 ^ 9"
proof -
  have "f32 (10685217 / 2 ^ 13 * 23) =
      of_int (rne (10685217 / 2 ^ 13 * 23 / 2 powi (- 9))) * 2 powi (- 9)"
    unfolding f32_def by (rule fround_eval [where b = 14]) simp_all
  also have "\<dots> = 15359999 / 2 ^ 9" by (simp add: rne_def Let_def)
  finally show ?thesis .
qed

lemma float_product_46:
  "f32 (group_ticksize driver_A song_46 0 * f32 (of_int (group_length silence song_46 0))) =
     15359999 / 2 ^ 9"
  by (simp only: group_ticksize_spec spec_ticksize_46 length_46 f32_ticksize_46
      of_int_numeral f32_numeral [of "Num.Bit1 (Num.Bit1 (Num.Bit1 (Num.Bit0 Num.One)))", simplified]
      f32_product_46)

lemma frames_46: "float_frames silence driver_A song_46 0 = 29999"
  unfolding float_frames_def float_product_46 by simp

lemma renderable_46: "renderable silence driver_A song_46"
  unfolding renderable_def
proof (intro conjI allI impI)
  show "0 < getResolution song_46" by (rule scene_46)
next
  fix position
  show "0 < getBpmAtColumn song_46 position" by (rule scene_46)
next
  fix position
  assume "position < length (getPatternGroupVector song_46)"
  then have p: "position = 0" by (simp add: scene_46)
  show "0 \<le> group_length silence song_46 position" unfolding p length_46 by simp
next
  fix position
  assume "position < length (getPatternGroupVector song_46)"
  then have p: "position = 0" by (simp add: scene_46)
  show "f32 (group_ticksize driver_A song_46 position *
             f32 (of_int (group_length silence song_46 position))) < 2 ^ 32"
    unfolding p float_product_46 by simp
qed


subsection \<open>Progress\<close>

lemma f32_tie: "f32 16777217 = 16777216"
proof -
  have "f32 16777217 = of_int (rne (16777217 / 2 powi 1)) * 2 powi 1"
    unfolding f32_def by (rule fround_eval [where b = 24]) simp_all
  also have "\<dots> = 16777216" by (simp add: rne_def Let_def)
  finally show ?thesis .
qed

lemma f32_below_hundred: "f32 (100 * (1 - 1 / 2 ^ 24)) = 100 - 1 / 2 ^ 17"
proof -
  have "f32 (100 * (1 - 1 / 2 ^ 24)) =
      of_int (rne (100 * (1 - 1 / 2 ^ 24) / 2 powi (- 17))) * 2 powi (- 17)"
    unfolding f32_def by (rule fround_eval [where b = 6]) simp_all
  also have "\<dots> = 100 - 1 / 2 ^ 17" by (simp add: rne_def Let_def)
  finally show ?thesis .
qed

lemma f32_third: "f32 (1 / 3) = 11184811 / 2 ^ 25"
proof -
  have "f32 (1 / 3) = of_int (rne (1 / 3 / 2 powi (- 25))) * 2 powi (- 25)"
    unfolding f32_def by (rule fround_eval [where b = "- 2"]) simp_all
  also have "\<dots> = 11184811 / 2 ^ 25" by (simp add: rne_def Let_def)
  finally show ?thesis .
qed

lemma f32_two_thirds: "f32 (2 / 3) = 11184811 / 2 ^ 24"
proof -
  have "f32 (2 / 3) = of_int (rne (2 / 3 / 2 powi (- 24))) * 2 powi (- 24)"
    unfolding f32_def by (rule fround_eval [where b = "- 1"]) simp_all
  also have "\<dots> = 11184811 / 2 ^ 24" by (simp add: rne_def Let_def)
  finally show ?thesis .
qed

lemma f64_exact_third: "f64 (11184811 / 2 ^ 25 * 100) = 11184811 / 2 ^ 25 * 100"
proof -
  have "representable 53 (11184811 / 2 ^ 25 * 100)"
    by (rule representableI [of _ 1118481100 "- 25"]) simp_all
  then show ?thesis unfolding f64_def by (rule fround_id) simp_all
qed

lemma f64_exact_two_thirds: "f64 (11184811 / 2 ^ 24 * 100) = 11184811 / 2 ^ 24 * 100"
proof -
  have "representable 53 (11184811 / 2 ^ 24 * 100)"
    by (rule representableI [of _ 1118481100 "- 24"]) simp_all
  then show ?thesis unfolding f64_def by (rule fround_id) simp_all
qed

lemma f32_percent_third: "f32 (11184811 / 2 ^ 25 * 100) = 8738134 / 2 ^ 18"
proof -
  have "f32 (11184811 / 2 ^ 25 * 100) =
      of_int (rne (11184811 / 2 ^ 25 * 100 / 2 powi (- 18))) * 2 powi (- 18)"
    unfolding f32_def by (rule fround_eval [where b = 5]) simp_all
  also have "\<dots> = 8738134 / 2 ^ 18" by (simp add: rne_def Let_def)
  finally show ?thesis .
qed

lemma f32_percent_two_thirds: "f32 (11184811 / 2 ^ 24 * 100) = 8738134 / 2 ^ 17"
proof -
  have "f32 (11184811 / 2 ^ 24 * 100) =
      of_int (rne (11184811 / 2 ^ 24 * 100 / 2 powi (- 17))) * 2 powi (- 17)"
    unfolding f32_def by (rule fround_eval [where b = 6]) simp_all
  also have "\<dots> = 8738134 / 2 ^ 17" by (simp add: rne_def Let_def)
  finally show ?thesis .
qed

lemma fPercent_of_three:
  "\<lfloor>fPercent 0 3\<rfloor> = 33" "\<lfloor>fPercent 1 3\<rfloor> = 66" "\<lfloor>fPercent 2 3\<rfloor> = 100"
proof -
  have "fPercent 0 3 = f32 (f64 (f32 (1 / 3) * 100))"
    by (simp add: fPercent_def f32_numeral f32_one)
  also have "\<dots> = f32 (f64 (11184811 / 2 ^ 25 * 100))" by (simp only: f32_third)
  also have "\<dots> = f32 (11184811 / 2 ^ 25 * 100)" by (simp only: f64_exact_third)
  also have "\<dots> = 8738134 / 2 ^ 18" by (simp only: f32_percent_third)
  finally have v: "fPercent 0 3 = 8738134 / 2 ^ 18" .
  show "\<lfloor>fPercent 0 3\<rfloor> = 33" unfolding v by simp
  have "fPercent 1 3 = f32 (f64 (f32 (2 / 3) * 100))"
    by (simp add: fPercent_def f32_numeral)
  also have "\<dots> = f32 (f64 (11184811 / 2 ^ 24 * 100))" by (simp only: f32_two_thirds)
  also have "\<dots> = f32 (11184811 / 2 ^ 24 * 100)" by (simp only: f64_exact_two_thirds)
  also have "\<dots> = 8738134 / 2 ^ 17" by (simp only: f32_percent_two_thirds)
  finally have v: "fPercent 1 3 = 8738134 / 2 ^ 17" .
  show "\<lfloor>fPercent 1 3\<rfloor> = 66" unfolding v by simp
  show "\<lfloor>fPercent 2 3\<rfloor> = 100"
    using fPercent_last [of 3] by simp
qed

lemma fPercent_tie: "fPercent 16777215 16777217 = 100"
  using f32_nat [of 16777216]
  by (simp add: fPercent_def f32_tie f32_one f64_hundred f32_hundred)

lemma fPercent_below:
  assumes "i + 1 < N" and "N \<le> 2 ^ 24"
  shows "fPercent i N \<le> 100 - 1 / 2 ^ 17"
proof -
  have N: "f32 (real N) = real N" using assms(2) by (rule f32_nat)
  have i: "f32 (real (i + 1)) = real (i + 1)" using assms by (intro f32_nat) simp
  have "real N \<le> 2 ^ 24" using assms(2) by (metis of_nat_le_iff of_nat_numeral of_nat_power)
  then have "1 / 2 ^ 24 \<le> 1 / real N" using assms(1) by (intro divide_left_mono) simp_all
  moreover have "real (i + 1) / real N \<le> (real N - 1) / real N"
    using assms(1) by (intro divide_right_mono) simp_all
  moreover have "(real N - 1) / real N = 1 - 1 / real N"
    using assms(1) by (simp add: field_simps)
  ultimately have q: "real (i + 1) / real N \<le> 1 - 1 / 2 ^ 24" by linarith
  have q0: "0 < real (i + 1) / real N" using assms(1) by simp
  have "representable 24 (1 - 1 / 2 ^ 24)"
    by (rule representableI [of _ "2 ^ 24 - 1" "- 24"]) simp_all
  with q0 q have "f32 (real (i + 1) / real N) \<le> 1 - 1 / 2 ^ 24"
    unfolding f32_def by (intro fround_upper) simp_all
  then have x: "f32 (real (i + 1) / real N) * 100 \<le> 100 * (1 - 1 / 2 ^ 24)" by simp
  have x0: "0 \<le> f32 (real (i + 1) / real N) * 100"
    using q0 f32_nonneg [of "real (i + 1) / real N"] by simp
  have "representable 53 (100 * (1 - 1 / 2 ^ 24))"
    by (rule representableI [of _ "100 * (2 ^ 24 - 1)" "- 24"]) simp_all
  then have "f64 (100 * (1 - 1 / 2 ^ 24)) = 100 * (1 - 1 / 2 ^ 24)"
    unfolding f64_def by (rule fround_id) simp_all
  with f64_mono [OF x0 x] have y: "f64 (f32 (real (i + 1) / real N) * 100) \<le> 100 * (1 - 1 / 2 ^ 24)"
    by simp
  have "f32 (f64 (f32 (real (i + 1) / real N) * 100)) \<le> f32 (100 * (1 - 1 / 2 ^ 24))"
    using y by (intro f32_mono f64_nonneg x0)
  then show ?thesis by (simp only: fPercent_def N i f32_below_hundred)
qed

lemma round_two_thirds: "spec_percentage 2 3 = 67"
  by (simp add: spec_percentage_def round_def)

lemma sorted_map_upt:
  assumes "\<And>i j. i \<le> j \<Longrightarrow> j < N \<Longrightarrow> g i \<le> (g j :: int)"
  shows "sorted (map g [0..<N])"
  unfolding sorted_iff_nth_mono using assms by simp

lemma floor_percent_mono:
  "i \<le> j \<Longrightarrow> 0 < N \<Longrightarrow> \<lfloor>fPercent i N\<rfloor> \<le> \<lfloor>fPercent j N\<rfloor>"
  by (intro floor_mono fPercent_mono)

lemma progress_sorted:
  "sorted (0 # map (\<lambda>p. \<lfloor>fPercent p N\<rfloor>) [0..<N])"
proof -
  have "sorted (map (\<lambda>p. \<lfloor>fPercent p N\<rfloor>) [0..<N])"
    by (rule sorted_map_upt) (simp add: floor_percent_mono)
  moreover have "\<forall>v \<in> set (map (\<lambda>p. \<lfloor>fPercent p N\<rfloor>) [0..<N]). 0 \<le> v"
    using fPercent_nonneg by simp
  ultimately show ?thesis by simp
qed

lemma progress_last:
  assumes "0 < N"
  shows "last (0 # map (\<lambda>p. \<lfloor>fPercent p N\<rfloor>) [0..<N]) = 100"
proof -
  from assms obtain M where N: "N = Suc M" by (cases N) auto
  have "\<lfloor>fPercent M (Suc M)\<rfloor> = 100" using fPercent_last [of "Suc M"] by simp
  then show ?thesis by (simp add: N)
qed


lemma scene_3:
  "length (getPatternGroupVector song_3) = 3" "0 < getResolution song_3"
  "0 < getBpmAtColumn song_3 p"
  by (simp_all add: song_3_def song_A_def)

lemma length_3: "p < 3 \<Longrightarrow> group_length silence song_3 p = 96"
  by (simp add: group_length_def song_3_def less_Suc_eq numeral_3_eq_3) auto

lemma ticksize_3: "group_ticksize driver_A song_3 p = 500"
  by (simp add: group_ticksize_def song_3_def song_A_def driver_A_def f32_numeral)

lemma renderable_3: "renderable silence driver_A song_3"
  by (simp add: renderable_def scene_3 length_3 ticksize_3 f32_numeral)

lemma upt_3: "[0..<3] = [0, 1, 2]"
  by (simp add: upt_rec numeral_3_eq_3)



lemma nth_progress: "k < N \<Longrightarrow> (v # map g [0..<N]) ! Suc k = g k"
  by simp

lemma floor_percent_below:
  assumes "i + 1 < N" and "N \<le> 2 ^ 24"
  shows "\<lfloor>fPercent i N\<rfloor> < 100"
proof -
  have "fPercent i N \<le> 100 - 1 / 2 ^ 17" using assms by (rule fPercent_below)
  then have "fPercent i N < 100" by simp
  then show ?thesis by (simp add: floor_less_iff)
qed

lemma progress_below:
  assumes "N \<le> 2 ^ 24" and "k < N"
  shows "(0 # map (\<lambda>p. \<lfloor>fPercent p N\<rfloor>) [0..<N]) ! k < 100"
proof (cases k)
  case 0
  then show ?thesis by simp
next
  case (Suc j)
  with assms(2) have "j + 1 < N" by simp
  from floor_percent_below [OF this assms(1)] Suc assms(2) show ?thesis by simp
qed

lemma progress_at_end:
  assumes "0 < N"
  shows "(0 # map (\<lambda>p. \<lfloor>fPercent p N\<rfloor>) [0..<N]) ! N = 100"
proof -
  from assms obtain M where N: "N = Suc M" by (cases N) auto
  have "(0 # map (\<lambda>p. \<lfloor>fPercent p N\<rfloor>) [0..<N]) ! Suc M = \<lfloor>fPercent M N\<rfloor>"
    by (rule nth_progress) (simp add: N)
  moreover have "\<lfloor>fPercent M N\<rfloor> = 100" using fPercent_last [of N] assms by (simp add: N)
  ultimately show ?thesis by (simp add: N)
qed



lemma scene_long:
  "length (getPatternGroupVector long_song) = 16777217" "0 < getResolution long_song"
  "0 < getBpmAtColumn long_song p"
  by (simp_all add: long_song_def song_A_def)

lemma length_long: "p < 16777217 \<Longrightarrow> group_length silence long_song p = 192"
  by (simp add: group_length_def long_song_def silence_def)

lemma ticksize_long: "group_ticksize driver_A long_song p = 500"
  by (simp add: group_ticksize_def long_song_def song_A_def driver_A_def f32_numeral)

lemma renderable_long: "renderable silence driver_A long_song"
  by (simp add: renderable_def scene_long length_long ticksize_long f32_numeral)


subsection \<open>Configuration\<close>

lemma int_of_unsigned_48000: "int_of_unsigned 48000 = 48000"
  by (simp add: int_of_unsigned_def)

lemma pull_upto_sound:
  "pull_upto n ext k s = Returned u t \<Longrightarrow> pull ext k s = Some t"
proof (induction n arbitrary: s)
  case 0 then show ?case by simp
next
  case (Suc n)
  obtain ret w where c: "m_processCallback ext k (world s) = (ret, w)"
    by (cases "m_processCallback ext k (world s)")
  show ?case
  proof (cases "ret = 0")
    case True
    with Suc.prems c show ?thesis by (subst pull.simps) (simp add: Let_def)
  next
    case False
    with Suc.prems c have "pull_upto n ext k (emit (Callback k ret) (s\<lparr>world := w\<rparr>)) = Returned u t"
      by (simp add: Let_def)
    then have "pull ext k (emit (Callback k ret) (s\<lparr>world := w\<rparr>)) = Some t" by (rule Suc.IH)
    with False c show ?thesis by (subst pull.simps) (simp add: Let_def)
  qed
qed

lemma pull_upto_complete:
  assumes "pull ext k s = Some t"
  shows "\<exists>n. pull_upto n ext k s = Returned () t"
  using assms
proof (induction rule: pull.raw_induct [rotated, consumes 1])
  case (1 call ext k s t)
  obtain ret w where c: "m_processCallback ext k (world s) = (ret, w)"
    by (cases "m_processCallback ext k (world s)")
  show ?case
  proof (cases "ret = 0")
    case True
    with 1(2) c have "pull_upto (Suc 0) ext k s = Returned () t" by (simp add: Let_def)
    then show ?thesis ..
  next
    case False
    with 1(2) c have "call ext k (emit (Callback k ret) (s\<lparr>world := w\<rparr>)) = Some t"
      by (simp add: Let_def)
    from 1(1) [OF this] obtain n where
      "pull_upto n ext k (emit (Callback k ret) (s\<lparr>world := w\<rparr>)) = Returned () t" ..
    with False c have "pull_upto (Suc n) ext k s = Returned () t" by (simp add: Let_def)
    then show ?thesis ..
  qed
qed

lemma pull_upto_mono:
  "pull_upto n ext k s = Returned u t \<Longrightarrow> n \<le> m \<Longrightarrow> pull_upto m ext k s = Returned u t"
proof (induction n arbitrary: s m)
  case 0 then show ?case by simp
next
  case (Suc n)
  from Suc.prems(2) obtain m' where m: "m = Suc m'" and le: "n \<le> m'" by (cases m) simp_all
  obtain ret w where c: "m_processCallback ext k (world s) = (ret, w)"
    by (cases "m_processCallback ext k (world s)")
  show ?case
  proof (cases "ret = 0")
    case True
    with Suc.prems c show ?thesis by (simp add: m Let_def)
  next
    case False
    with Suc.prems c have "pull_upto n ext k (emit (Callback k ret) (s\<lparr>world := w\<rparr>)) = Returned u t"
      by (simp add: Let_def)
    from Suc.IH [OF this le] False c show ?thesis by (simp add: m Let_def)
  qed
qed


lemma chunk_loop_unf:
  assumes "fn < F"
  shows "chunk_loop ext d m F fn s =
    (let ub = (if F - fn < m_nBufferSize d then int_of_unsigned (F - fn)
               else int_of_unsigned (m_nBufferSize d))
     in case pull ext (unsigned_of_int ub) s of
          None \<Rightarrow> None
        | Some s1 \<Rightarrow>
            (case interleave (m_pOut_L ext (world s1)) (m_pOut_R ext (world s1))
                    (unsigned_of_int ub) 0 (pData s1) of
               None \<Rightarrow> None
             | Some a \<Rightarrow> chunk_loop ext d m F ((fn + unsigned_of_int ub) mod 2 ^ 32)
                          (write_chunk ext m a ub s1)))"
  using assms by (subst chunk_loop.simps) (simp only: if_True Let_def)

lemma chunk_loop_upto_unf:
  assumes "fn < F"
  shows "chunk_loop_upto k (Suc n) ext d m F fn s =
    (let ub = (if F - fn < m_nBufferSize d then int_of_unsigned (F - fn)
               else int_of_unsigned (m_nBufferSize d))
     in case pull_upto k ext (unsigned_of_int ub) s of
          Returned u s1 \<Rightarrow>
            (case interleave (m_pOut_L ext (world s1)) (m_pOut_R ext (world s1))
                    (unsigned_of_int ub) 0 (pData s1) of
               None \<Rightarrow> Undefined s1
             | Some a \<Rightarrow> chunk_loop_upto k n ext d m F ((fn + unsigned_of_int ub) mod 2 ^ 32)
                          (write_chunk ext m a ub s1))
        | Undefined s1 \<Rightarrow> Undefined s1
        | Running s1 \<Rightarrow> Running s1)"
  using assms by (simp only: chunk_loop_upto.simps if_True Let_def)

lemma chunk_loop_upto_exit:
  "\<not> fn < F \<Longrightarrow> chunk_loop_upto k n ext d m F fn s = Returned () s"
  by (cases n) simp_all

lemma chunk_loop_upto_returned:
  assumes "chunk_loop_upto k (Suc n) ext d m F fn s = Returned u t" and "fn < F"
  defines "ub \<equiv> (if F - fn < m_nBufferSize d then int_of_unsigned (F - fn)
                  else int_of_unsigned (m_nBufferSize d))"
  obtains s1 a where "pull_upto k ext (unsigned_of_int ub) s = Returned () s1"
    and "interleave (m_pOut_L ext (world s1)) (m_pOut_R ext (world s1))
           (unsigned_of_int ub) 0 (pData s1) = Some a"
    and "chunk_loop_upto k n ext d m F ((fn + unsigned_of_int ub) mod 2 ^ 32)
           (write_chunk ext m a ub s1) = Returned u t"
proof -
  note unf = assms(1) [unfolded chunk_loop_upto_unf [OF assms(2)] Let_def, folded ub_def]
  from unf obtain s1 where p: "pull_upto k ext (unsigned_of_int ub) s = Returned () s1"
    by (cases "pull_upto k ext (unsigned_of_int ub) s") simp_all
  with unf obtain a where i: "interleave (m_pOut_L ext (world s1)) (m_pOut_R ext (world s1))
           (unsigned_of_int ub) 0 (pData s1) = Some a"
    by (cases "interleave (m_pOut_L ext (world s1)) (m_pOut_R ext (world s1))
           (unsigned_of_int ub) 0 (pData s1)") simp_all
  from unf p i have "chunk_loop_upto k n ext d m F ((fn + unsigned_of_int ub) mod 2 ^ 32)
           (write_chunk ext m a ub s1) = Returned u t" by simp
  with p i show thesis by (rule that)
qed

lemma chunk_loop_upto_sound:
  "chunk_loop_upto k n ext d m F fn s = Returned u t \<Longrightarrow> chunk_loop ext d m F fn s = Some t"
proof (induction n arbitrary: fn s)
  case 0
  then show ?case by (simp add: chunk_loop_done split: if_splits)
next
  case (Suc n)
  show ?case
  proof (cases "fn < F")
    case False
    with Suc.prems show ?thesis by (simp add: chunk_loop_done)
  next
    case True
    define ub where "ub = (if F - fn < m_nBufferSize d then int_of_unsigned (F - fn)
                  else int_of_unsigned (m_nBufferSize d))"
    from chunk_loop_upto_returned [OF Suc.prems True, folded ub_def]
    obtain s1 a where p: "pull_upto k ext (unsigned_of_int ub) s = Returned () s1"
      and i: "interleave (m_pOut_L ext (world s1)) (m_pOut_R ext (world s1))
           (unsigned_of_int ub) 0 (pData s1) = Some a"
      and r: "chunk_loop_upto k n ext d m F ((fn + unsigned_of_int ub) mod 2 ^ 32)
           (write_chunk ext m a ub s1) = Returned u t" by blast
    from p have "pull ext (unsigned_of_int ub) s = Some s1" by (rule pull_upto_sound)
    moreover from r have "chunk_loop ext d m F ((fn + unsigned_of_int ub) mod 2 ^ 32)
           (write_chunk ext m a ub s1) = Some t" by (rule Suc.IH)
    ultimately show ?thesis
      using i
      by (simp only: chunk_loop_unf [OF True, of ext d m s, unfolded Let_def, folded ub_def]
          option.case)
  qed
qed

lemma chunk_loop_upto_mono:
  "chunk_loop_upto k n ext d m F fn s = Returned u t \<Longrightarrow> k \<le> k' \<Longrightarrow> n \<le> n' \<Longrightarrow>
   chunk_loop_upto k' n' ext d m F fn s = Returned u t"
proof (induction n arbitrary: fn s n')
  case 0
  then show ?case by (simp add: chunk_loop_upto_exit split: if_splits)
next
  case (Suc n)
  from Suc.prems(3) obtain n'' where n': "n' = Suc n''" and le: "n \<le> n''" by (cases n') simp_all
  show ?case
  proof (cases "fn < F")
    case False
    with Suc.prems show ?thesis by (simp add: chunk_loop_upto_exit)
  next
    case True
    define ub where "ub = (if F - fn < m_nBufferSize d then int_of_unsigned (F - fn)
                  else int_of_unsigned (m_nBufferSize d))"
    from chunk_loop_upto_returned [OF Suc.prems(1) True, folded ub_def]
    obtain s1 a where p: "pull_upto k ext (unsigned_of_int ub) s = Returned () s1"
      and i: "interleave (m_pOut_L ext (world s1)) (m_pOut_R ext (world s1))
           (unsigned_of_int ub) 0 (pData s1) = Some a"
      and r: "chunk_loop_upto k n ext d m F ((fn + unsigned_of_int ub) mod 2 ^ 32)
           (write_chunk ext m a ub s1) = Returned u t" by blast
    from p Suc.prems(2) have "pull_upto k' ext (unsigned_of_int ub) s = Returned () s1"
      by (rule pull_upto_mono)
    moreover from r Suc.prems(2) le
    have "chunk_loop_upto k' n'' ext d m F ((fn + unsigned_of_int ub) mod 2 ^ 32)
           (write_chunk ext m a ub s1) = Returned u t" by (rule Suc.IH)
    ultimately show ?thesis
      using i unfolding n'
      by (simp only: chunk_loop_upto_unf [OF True, of k' n'' ext d m s, unfolded Let_def, folded ub_def]
          option.case run.case)
  qed
qed

lemma chunk_loop_upto_complete_aux:
  assumes "chunk_loop ext d m F fn s = Some t"
  shows "\<exists>k n. chunk_loop_upto k n ext d m F fn s = Returned () t"
  using assms
proof (induction rule: chunk_loop.raw_induct [rotated, consumes 1])
  case (1 loop ext d m F fn s t)
  show ?case
  proof (cases "fn < F")
    case False
    with 1(2) have "t = s" by simp
    with False have "chunk_loop_upto 0 0 ext d m F fn s = Returned () t" by simp
    then show ?thesis by blast
  next
    case True
    define ub where "ub = (if F - fn < m_nBufferSize d then int_of_unsigned (F - fn)
                  else int_of_unsigned (m_nBufferSize d))"
    note body = 1(2) [unfolded Let_def, folded ub_def]
    from body True obtain s1 where p: "pull ext (unsigned_of_int ub) s = Some s1"
      by (cases "pull ext (unsigned_of_int ub) s") simp_all
    with body True obtain a where i: "interleave (m_pOut_L ext (world s1)) (m_pOut_R ext (world s1))
           (unsigned_of_int ub) 0 (pData s1) = Some a"
      by (cases "interleave (m_pOut_L ext (world s1)) (m_pOut_R ext (world s1))
           (unsigned_of_int ub) 0 (pData s1)") simp_all
    from body True p i have "loop ext d m F ((fn + unsigned_of_int ub) mod 2 ^ 32)
           (write_chunk ext m a ub s1) = Some t" by simp
    from 1(1) [OF this] obtain k n where
      r: "chunk_loop_upto k n ext d m F ((fn + unsigned_of_int ub) mod 2 ^ 32)
           (write_chunk ext m a ub s1) = Returned () t" by blast
    from pull_upto_complete [OF p] obtain j where
      j: "pull_upto j ext (unsigned_of_int ub) s = Returned () s1" ..
    from j have "pull_upto (max j k) ext (unsigned_of_int ub) s = Returned () s1"
      by (rule pull_upto_mono) simp
    moreover from r have "chunk_loop_upto (max j k) n ext d m F ((fn + unsigned_of_int ub) mod 2 ^ 32)
           (write_chunk ext m a ub s1) = Returned () t"
      by (rule chunk_loop_upto_mono) simp_all
    ultimately have "chunk_loop_upto (max j k) (Suc n) ext d m F fn s = Returned () t"
      using i
      by (simp only: chunk_loop_upto_unf [OF True, of "max j k" n ext d m s, unfolded Let_def, folded ub_def]
          option.case run.case)
    then show ?thesis by blast
  qed
qed

lemma chunk_loop_upto_complete:
  assumes "chunk_loop ext d m F fn s = Some t"
  shows "\<exists>n. chunk_loop_upto n n ext d m F fn s = Returned () t"
proof -
  from chunk_loop_upto_complete_aux [OF assms] obtain k n where
    "chunk_loop_upto k n ext d m F fn s = Returned () t" by blast
  then have "chunk_loop_upto (max k n) (max k n) ext d m F fn s = Returned () t"
    by (rule chunk_loop_upto_mono) simp_all
  then show ?thesis ..
qed


lemma column_loop_unf:
  assumes "p < length (getPatternGroupVector g)"
  shows "column_loop ext d g m p s =
    (case column_frames ext d g p of
       None \<Rightarrow> None
     | Some F \<Rightarrow>
        (case chunk_loop ext d m F 0 s of
           None \<Rightarrow> None
         | Some s1 \<Rightarrow>
            (case float_to_int (fPercent p (length (getPatternGroupVector g))) of
               None \<Rightarrow> None
             | Some percent \<Rightarrow> column_loop ext d g m (p + 1) (emit (Progress percent) s1))))"
  using assms by (subst column_loop.simps) (simp only: Let_def if_True)

lemma column_loop_upto_unf:
  assumes "p < length (getPatternGroupVector g)"
  shows "column_loop_upto n ext d g m p s =
    (case column_frames ext d g p of
       None \<Rightarrow> Undefined s
     | Some F \<Rightarrow>
        (case chunk_loop_upto n n ext d m F 0 s of
           Returned u s1 \<Rightarrow>
            (case float_to_int (fPercent p (length (getPatternGroupVector g))) of
               None \<Rightarrow> Undefined s1
             | Some percent \<Rightarrow> column_loop_upto n ext d g m (p + 1) (emit (Progress percent) s1))
         | Undefined s1 \<Rightarrow> Undefined s1
         | Running s1 \<Rightarrow> Running s1))"
  using assms by (subst column_loop_upto.simps) (simp only: Let_def if_True)

lemma column_loop_upto_exit:
  "\<not> p < length (getPatternGroupVector g) \<Longrightarrow> column_loop_upto n ext d g m p s = Returned () s"
  by (subst column_loop_upto.simps) simp

lemma column_loop_upto_returned:
  assumes "column_loop_upto n ext d g m p s = Returned u t"
    and "p < length (getPatternGroupVector g)"
  obtains F s1 percent where "column_frames ext d g p = Some F"
    and "chunk_loop_upto n n ext d m F 0 s = Returned () s1"
    and "float_to_int (fPercent p (length (getPatternGroupVector g))) = Some percent"
    and "column_loop_upto n ext d g m (p + 1) (emit (Progress percent) s1) = Returned u t"
proof -
  note unf = assms(1) [unfolded column_loop_upto_unf [OF assms(2)]]
  from unf obtain F where f: "column_frames ext d g p = Some F"
    by (cases "column_frames ext d g p") simp_all
  with unf obtain s1 where c: "chunk_loop_upto n n ext d m F 0 s = Returned () s1"
    by (cases "chunk_loop_upto n n ext d m F 0 s") simp_all
  with unf f obtain percent where
    pc: "float_to_int (fPercent p (length (getPatternGroupVector g))) = Some percent"
    by (cases "float_to_int (fPercent p (length (getPatternGroupVector g)))") simp_all
  with unf f c have "column_loop_upto n ext d g m (p + 1) (emit (Progress percent) s1) = Returned u t"
    by simp
  with f c pc show thesis by (rule that)
qed

lemma column_loop_upto_sound:
  "column_loop_upto n ext d g m p s = Returned u t \<Longrightarrow> column_loop ext d g m p s = Some t"
proof (induction "length (getPatternGroupVector g) - p" arbitrary: p s)
  case 0
  then show ?case by (simp add: column_loop_done column_loop_upto_exit)
next
  case (Suc k)
  then have p: "p < length (getPatternGroupVector g)" by simp
  from column_loop_upto_returned [OF Suc.prems p]
  obtain F s1 percent where f: "column_frames ext d g p = Some F"
    and c: "chunk_loop_upto n n ext d m F 0 s = Returned () s1"
    and pc: "float_to_int (fPercent p (length (getPatternGroupVector g))) = Some percent"
    and r: "column_loop_upto n ext d g m (p + 1) (emit (Progress percent) s1) = Returned u t"
    by blast
  from c have "chunk_loop ext d m F 0 s = Some s1" by (rule chunk_loop_upto_sound)
  moreover from Suc.hyps(2) have "k = length (getPatternGroupVector g) - (p + 1)" by simp
  from Suc.hyps(1) [OF this r]
  have "column_loop ext d g m (p + 1) (emit (Progress percent) s1) = Some t" .
  ultimately show ?case using f pc by (simp only: column_loop_unf [OF p] option.case)
qed

lemma column_loop_upto_mono:
  "column_loop_upto n ext d g m p s = Returned u t \<Longrightarrow> n \<le> n' \<Longrightarrow>
   column_loop_upto n' ext d g m p s = Returned u t"
proof (induction "length (getPatternGroupVector g) - p" arbitrary: p s)
  case 0
  then show ?case by (simp add: column_loop_upto_exit)
next
  case (Suc k)
  then have p: "p < length (getPatternGroupVector g)" by simp
  from column_loop_upto_returned [OF Suc.prems(1) p]
  obtain F s1 percent where f: "column_frames ext d g p = Some F"
    and c: "chunk_loop_upto n n ext d m F 0 s = Returned () s1"
    and pc: "float_to_int (fPercent p (length (getPatternGroupVector g))) = Some percent"
    and r: "column_loop_upto n ext d g m (p + 1) (emit (Progress percent) s1) = Returned u t"
    by blast
  from c Suc.prems(2) Suc.prems(2) have "chunk_loop_upto n' n' ext d m F 0 s = Returned () s1"
    by (rule chunk_loop_upto_mono)
  moreover from Suc.hyps(2) have "k = length (getPatternGroupVector g) - (p + 1)" by simp
  from Suc.hyps(1) [OF this r Suc.prems(2)]
  have "column_loop_upto n' ext d g m (p + 1) (emit (Progress percent) s1) = Returned u t" .
  ultimately show ?case
    using f pc by (simp only: column_loop_upto_unf [OF p] option.case run.case)
qed

lemma column_loop_upto_complete:
  "column_loop ext d g m p s = Some t \<Longrightarrow> \<exists>n. column_loop_upto n ext d g m p s = Returned () t"
proof (induction "length (getPatternGroupVector g) - p" arbitrary: p s)
  case 0
  then show ?case by (simp add: column_loop_done column_loop_upto_exit)
next
  case (Suc k)
  then have p: "p < length (getPatternGroupVector g)" by simp
  note unf = Suc.prems [unfolded column_loop_unf [OF p]]
  from unf obtain F where f: "column_frames ext d g p = Some F"
    by (cases "column_frames ext d g p") simp_all
  with unf obtain s1 where c: "chunk_loop ext d m F 0 s = Some s1"
    by (cases "chunk_loop ext d m F 0 s") simp_all
  with unf f obtain percent where
    pc: "float_to_int (fPercent p (length (getPatternGroupVector g))) = Some percent"
    by (cases "float_to_int (fPercent p (length (getPatternGroupVector g)))") simp_all
  with unf f c have r: "column_loop ext d g m (p + 1) (emit (Progress percent) s1) = Some t"
    by simp
  from Suc.hyps(2) have "k = length (getPatternGroupVector g) - (p + 1)" by simp
  from Suc.hyps(1) [OF this r] obtain n2 where
    n2: "column_loop_upto n2 ext d g m (p + 1) (emit (Progress percent) s1) = Returned () t" ..
  from chunk_loop_upto_complete [OF c] obtain n1 where
    n1: "chunk_loop_upto n1 n1 ext d m F 0 s = Returned () s1" ..
  from n1 have "chunk_loop_upto (max n1 n2) (max n1 n2) ext d m F 0 s = Returned () s1"
    by (rule chunk_loop_upto_mono) simp_all
  moreover from n2
  have "column_loop_upto (max n1 n2) ext d g m (p + 1) (emit (Progress percent) s1) = Returned () t"
    by (rule column_loop_upto_mono) simp
  ultimately have "column_loop_upto (max n1 n2) ext d g m p s = Returned () t"
    using f pc by (simp only: column_loop_upto_unf [OF p] option.case run.case)
  then show ?case ..
qed

lemma thread_upto_agrees:
  "diskWriterDriver_thread ext d g w f = Some (x, t) \<longleftrightarrow>
     (\<exists>fuel. thread_upto fuel ext d g w f = Returned x t)"
proof (cases "sf_format_check ext
      \<lparr>samplerate = int_of_unsigned (m_nSampleRate d), channels = 2,
       format = soundInfo_format (m_sFilename d) (m_nSampleDepth d)\<rparr>")
  case False
  then show ?thesis
    by (simp add: diskWriterDriver_thread_def thread_upto_def Let_def)
next
  case True
  define info where "info = \<lparr>samplerate = int_of_unsigned (m_nSampleRate d), channels = 2,
       format = soundInfo_format (m_sFilename d) (m_nSampleDepth d)\<rparr>"
  obtain h f1 where o: "sf_open ext (m_sFilename d) info f = (h, f1)"
    by (cases "sf_open ext (m_sFilename d) info f")
  define s0 :: "('a, 'b) state" where "s0 = \<lparr>world = play ext w, sink = f1,
     pData = replicate ((m_nBufferSize d * 2) mod 2 ^ 32) 0,
     trace = [Progress 0, InfoLog ''DiskWriterDriver thread start'', Play,
              Open (m_sFilename d) info h]\<rparr>"
  have th: "diskWriterDriver_thread ext d g w f =
      (case column_loop ext d g h 0 s0 of
         None \<Rightarrow> None
       | Some s \<Rightarrow> Some (Finished, emit (InfoLog ''DiskWriterDriver thread end'')
            (emit (Close h) (s\<lparr>sink := sf_close ext h (sink s)\<rparr>))))"
    using True o unfolding info_def s0_def
    by (simp add: diskWriterDriver_thread_def Let_def emit_def split: option.split)
  have tu: "thread_upto n ext d g w f =
      (case column_loop_upto n ext d g h 0 s0 of
         Returned u s \<Rightarrow> Returned Finished (emit (InfoLog ''DiskWriterDriver thread end'')
            (emit (Close h) (s\<lparr>sink := sf_close ext h (sink s)\<rparr>)))
       | Undefined s \<Rightarrow> Undefined s
       | Running s \<Rightarrow> Running s)" for n
    using True o unfolding info_def s0_def
    by (simp add: thread_upto_def Let_def emit_def split: run.split)
  show ?thesis
  proof
    assume a: "diskWriterDriver_thread ext d g w f = Some (x, t)"
    then obtain s where s: "column_loop ext d g h 0 s0 = Some s"
      unfolding th by (cases "column_loop ext d g h 0 s0") simp_all
    from column_loop_upto_complete [OF s] obtain n where
      "column_loop_upto n ext d g h 0 s0 = Returned () s" ..
    with a s have "thread_upto n ext d g w f = Returned x t" by (simp add: th tu)
    then show "\<exists>fuel. thread_upto fuel ext d g w f = Returned x t" ..
  next
    assume "\<exists>fuel. thread_upto fuel ext d g w f = Returned x t"
    then obtain n where a: "thread_upto n ext d g w f = Returned x t" ..
    then obtain u s where s: "column_loop_upto n ext d g h 0 s0 = Returned u s"
      unfolding tu by (cases "column_loop_upto n ext d g h 0 s0") simp_all
    then have "column_loop ext d g h 0 s0 = Some s" by (rule column_loop_upto_sound)
    with a s show "diskWriterDriver_thread ext d g w f = Some (x, t)" by (simp add: th tu)
  qed
qed


lemma extends_refl: "extends s s"
  by (simp add: extends_def)

lemma extends_trans: "extends s t \<Longrightarrow> extends t u \<Longrightarrow> extends s u"
  by (auto simp add: extends_def)

lemma extends_emit: "extends s (emit e s)"
  by (simp add: extends_def emit_def)

lemma extends_write_chunk: "extends s (write_chunk ext m a u s)"
  by (cases "sf_writef_float ext m (take (2 * nat u) a) u (sink s)")
    (simp add: extends_def write_chunk_def emit_def Let_def)

lemma pull_upto_extends: "extends s (state_of (pull_upto n ext k s))"
proof (induction n arbitrary: s)
  case 0 show ?case by (simp add: extends_refl)
next
  case (Suc n)
  obtain ret w where c: "m_processCallback ext k (world s) = (ret, w)"
    by (cases "m_processCallback ext k (world s)")
  have e: "extends s (emit (Callback k ret) (s\<lparr>world := w\<rparr>))"
    by (simp add: extends_def emit_def)
  show ?case
  proof (cases "ret = 0")
    case True
    with c e show ?thesis by (simp add: Let_def)
  next
    case False
    from e Suc.IH [of "emit (Callback k ret) (s\<lparr>world := w\<rparr>)"]
    have "extends s (state_of (pull_upto n ext k (emit (Callback k ret) (s\<lparr>world := w\<rparr>))))"
      by (rule extends_trans)
    with False c show ?thesis by (simp add: Let_def)
  qed
qed

lemma chunk_loop_upto_extends: "extends s (state_of (chunk_loop_upto k n ext d m F fn s))"
proof (induction n arbitrary: fn s)
  case 0 show ?case by (simp add: extends_refl)
next
  case (Suc n)
  show ?case
  proof (cases "fn < F")
    case False
    then show ?thesis by (simp add: extends_refl)
  next
    case True
    define ub where "ub = (if F - fn < m_nBufferSize d then int_of_unsigned (F - fn)
                  else int_of_unsigned (m_nBufferSize d))"
    note unf = chunk_loop_upto_unf [OF True, of k n ext d m s, unfolded Let_def, folded ub_def]
    note p = pull_upto_extends [of s k ext "unsigned_of_int ub"]
    show ?thesis
    proof (cases "pull_upto k ext (unsigned_of_int ub) s")
      case (Returned u s1)
      with p have e1: "extends s s1" by simp
      show ?thesis
      proof (cases "interleave (m_pOut_L ext (world s1)) (m_pOut_R ext (world s1))
                      (unsigned_of_int ub) 0 (pData s1)")
        case None
        with Returned e1 show ?thesis by (simp only: unf run.case option.case state_of.simps)
      next
        case (Some a)
        from e1 extends_write_chunk have "extends s (write_chunk ext m a ub s1)"
          by (rule extends_trans)
        from this Suc.IH
        have "extends s (state_of (chunk_loop_upto k n ext d m F ((fn + unsigned_of_int ub) mod 2 ^ 32)
            (write_chunk ext m a ub s1)))" by (rule extends_trans)
        with Returned Some show ?thesis by (simp only: unf run.case option.case)
      qed
    next
      case (Undefined s1)
      with p show ?thesis by (simp only: unf run.case state_of.simps)
    next
      case (Running s1)
      with p show ?thesis by (simp only: unf run.case state_of.simps)
    qed
  qed
qed

lemma column_loop_upto_extends: "extends s (state_of (column_loop_upto n ext d g m p s))"
proof (induction "length (getPatternGroupVector g) - p" arbitrary: p s)
  case 0
  then show ?case by (simp add: column_loop_upto_exit extends_refl)
next
  case (Suc k)
  then have p: "p < length (getPatternGroupVector g)" by simp
  note unf = column_loop_upto_unf [OF p, of n ext d m s]
  show ?case
  proof (cases "column_frames ext d g p")
    case None
    then show ?thesis by (simp only: unf option.case state_of.simps extends_refl)
  next
    case (Some F)
    note c = chunk_loop_upto_extends [of s n n ext d m F 0]
    show ?thesis
    proof (cases "chunk_loop_upto n n ext d m F 0 s")
      case (Returned u s1)
      with c have e1: "extends s s1" by simp
      show ?thesis
      proof (cases "float_to_int (fPercent p (length (getPatternGroupVector g)))")
        case None
        with Some Returned e1 show ?thesis by (simp only: unf run.case option.case state_of.simps)
      next
        case pc: (Some percent)
        from Suc.hyps(2) have "k = length (getPatternGroupVector g) - (p + 1)" by simp
        note ih = Suc.hyps(1) [OF this, of "emit (Progress percent) s1"]
        from e1 extends_emit have "extends s (emit (Progress percent) s1)" by (rule extends_trans)
        from this ih
        have "extends s (state_of (column_loop_upto n ext d g m (p + 1) (emit (Progress percent) s1)))"
          by (rule extends_trans)
        with Some Returned pc show ?thesis by (simp only: unf run.case option.case)
      qed
    next
      case (Undefined s1)
      with Some c show ?thesis by (simp only: unf run.case option.case state_of.simps)
    next
      case (Running s1)
      with Some c show ?thesis by (simp only: unf run.case option.case state_of.simps)
    qed
  qed
qed

lemma chunk_loop_upto_zero_buffer:
  assumes "m_nBufferSize d = 0" and "fn < F" and "fn < 2 ^ 32"
  shows "chunk_loop_upto k n ext d m F fn s \<noteq> Returned u t"
proof (induction n arbitrary: s)
  case 0
  from assms(2) show ?case by simp
next
  case (Suc n)
  show ?case
  proof
    assume r: "chunk_loop_upto k (Suc n) ext d m F fn s = Returned u t"
    have ub: "(if F - fn < m_nBufferSize d then int_of_unsigned (F - fn)
               else int_of_unsigned (m_nBufferSize d)) = 0"
      using assms(1) by (simp add: int_of_unsigned_def)
    have fn: "(fn + unsigned_of_int 0) mod 2 ^ 32 = fn"
      using assms(3) by (simp add: unsigned_of_int_def)
    from chunk_loop_upto_returned [OF r assms(2)] obtain s1 a where
      "chunk_loop_upto k n ext d m F fn (write_chunk ext m a 0 s1) = Returned u t"
      unfolding ub fn by blast
    with Suc.IH show False by simp
  qed
qed

lemma column_loop_upto_zero_buffer:
  assumes "m_nBufferSize d = 0" and "0 < length (getPatternGroupVector g)"
    and "column_frames ext d g 0 = Some F" and "0 < F"
  shows "column_loop_upto n ext d g m 0 s \<noteq> Returned u t"
proof
  assume "column_loop_upto n ext d g m 0 s = Returned u t"
  from column_loop_upto_returned [OF this assms(2)] assms(3)
  obtain s1 where "chunk_loop_upto n n ext d m F 0 s = Returned () s1" by auto
  with chunk_loop_upto_zero_buffer [OF assms(1,4), of n n ext m s "()" s1] show False by simp
qed

lemma thread_upto_unfold:
  assumes "sf_format_check ext (soundInfo_of d)"
    and "sf_open ext (m_sFilename d) (soundInfo_of d) f = (h, f1)"
  shows "thread_upto n ext d g w f =
      (case column_loop_upto n ext d g h 0
              \<lparr>world = play ext w, sink = f1,
               pData = replicate ((m_nBufferSize d * 2) mod 2 ^ 32) 0,
               trace = [Progress 0, InfoLog ''DiskWriterDriver thread start'', Play,
                        Open (m_sFilename d) (soundInfo_of d) h]\<rparr> of
         Returned u s \<Rightarrow> Returned Finished (emit (InfoLog ''DiskWriterDriver thread end'')
            (emit (Close h) (s\<lparr>sink := sf_close ext h (sink s)\<rparr>)))
       | Undefined s \<Rightarrow> Undefined s
       | Running s \<Rightarrow> Running s)"
  using assms unfolding soundInfo_of_def
  by (simp add: thread_upto_def Let_def emit_def split: run.split)

lemma thread_upto_rejected:
  assumes "\<not> sf_format_check ext (soundInfo_of d)"
  shows "thread_upto n ext d g w f =
      Returned SoundInfoError
        \<lparr>world = play ext w, sink = f, pData = [],
         trace = [Progress 0, InfoLog ''DiskWriterDriver thread start'', Play,
                  ErrorLog ''Error in soundInfo'']\<rparr>"
  using assms unfolding soundInfo_of_def
  by (simp add: thread_upto_def Let_def emit_def)

lemma thread_upto_begins:
  assumes "sf_format_check ext (soundInfo_of d)"
  shows "\<exists>rest. trace (state_of (thread_upto n ext d g w f)) =
     [Progress 0, InfoLog ''DiskWriterDriver thread start'', Play,
      Open (m_sFilename d) (soundInfo_of d)
        (fst (sf_open ext (m_sFilename d) (soundInfo_of d) f))] @ rest"
proof -
  obtain h f1 where o: "sf_open ext (m_sFilename d) (soundInfo_of d) f = (h, f1)"
    by (cases "sf_open ext (m_sFilename d) (soundInfo_of d) f")
  define s0 :: "('a, 'b) state" where "s0 = \<lparr>world = play ext w, sink = f1,
     pData = replicate ((m_nBufferSize d * 2) mod 2 ^ 32) 0,
     trace = [Progress 0, InfoLog ''DiskWriterDriver thread start'', Play,
              Open (m_sFilename d) (soundInfo_of d) h]\<rparr>"
  note unf = thread_upto_unfold [OF assms o, of n g w, folded s0_def]
  from column_loop_upto_extends [of s0 n ext d g h 0] obtain r1 where
    r1: "trace (state_of (column_loop_upto n ext d g h 0 s0)) = trace s0 @ r1"
    unfolding extends_def ..
  have "\<exists>rest. trace (state_of (thread_upto n ext d g w f)) = trace s0 @ rest"
  proof (cases "column_loop_upto n ext d g h 0 s0")
    case (Returned u s)
    with r1 have "trace (state_of (thread_upto n ext d g w f)) =
        trace s0 @ (r1 @ [Close h, InfoLog ''DiskWriterDriver thread end''])"
      by (simp add: unf emit_def)
    then show ?thesis ..
  next
    case (Undefined s)
    with r1 have "trace (state_of (thread_upto n ext d g w f)) = trace s0 @ r1"
      by (simp add: unf)
    then show ?thesis ..
  next
    case (Running s)
    with r1 have "trace (state_of (thread_upto n ext d g w f)) = trace s0 @ r1"
      by (simp add: unf)
    then show ?thesis ..
  qed
  then show ?thesis by (simp add: s0_def o)
qed

lemma thread_upto_exit:
  assumes "sf_format_check ext (soundInfo_of d)"
    and "thread_upto n ext d g w f = Returned x t"
  shows "x = Finished"
proof -
  obtain h f1 where o: "sf_open ext (m_sFilename d) (soundInfo_of d) f = (h, f1)"
    by (cases "sf_open ext (m_sFilename d) (soundInfo_of d) f")
  from assms(2) show ?thesis
    unfolding thread_upto_unfold [OF assms(1) o]
    by (simp split: run.splits)
qed

lemma thread_upto_zero_buffer:
  assumes "sf_format_check ext (soundInfo_of d)"
    and "m_nBufferSize d = 0" and "0 < length (getPatternGroupVector g)"
    and "0 < frames_of ext d g 0"
  shows "thread_upto n ext d g w f \<noteq> Returned x t"
proof
  assume r: "thread_upto n ext d g w f = Returned x t"
  obtain h f1 where o: "sf_open ext (m_sFilename d) (soundInfo_of d) f = (h, f1)"
    by (cases "sf_open ext (m_sFilename d) (soundInfo_of d) f")
  from assms(4) obtain F where F: "column_frames ext d g 0 = Some F" "0 < F"
    by (cases "column_frames ext d g 0") (simp_all add: frames_of_def)
  from r column_loop_upto_zero_buffer [OF assms(2,3) F, where n = n and m = h]
  show False
    unfolding thread_upto_unfold [OF assms(1) o]
    by (simp split: run.splits)
qed



lemma soundInfo_0:
  "soundInfo_of driver_0 =
     \<lparr>samplerate = 48000, channels = 2, format = SF_FORMAT_WAV OR SF_FORMAT_PCM_16\<rparr>"
  by (simp add: soundInfo_of_def driver_0_def int_of_unsigned_48000 soundInfo_format_def
      endsWith_def sf_constants)

lemma soundInfo_s:
  "soundInfo_of driver_s =
     \<lparr>samplerate = 48, channels = 2, format = SF_FORMAT_WAV OR SF_FORMAT_PCM_16\<rparr>"
  by (simp add: soundInfo_of_def driver_s_def int_of_unsigned_def soundInfo_format_def
      endsWith_def sf_constants)

lemma frames_0: "column_frames silence driver_0 song_A 0 = Some 48000"
proof -
  have "column_frames silence driver_0 song_A 0 = column_frames silence driver_A song_A 0"
    by (rule column_frames_cong) (simp_all add: driver_0_def driver_A_def)
  also have "\<dots> = Some 48000"
    using renderable_frames [OF renderable_A, of 0] by (simp add: scene_A frames_A)
  finally show ?thesis .
qed

lemma pull_upto_silence: "pull_upto (Suc k) silence n s = Returned () (emit (Callback n 0) s)"
  by (simp add: silence_def Let_def)

lemma interleave_nothing: "interleave L R 0 i a = Some a"
  by (simp add: interleave.simps)

lemma zero_round:
  assumes "pData s = []"
  shows "chunk_loop_upto (Suc k) (Suc n) silence driver_0 True 48000 0 s =
     chunk_loop_upto (Suc k) n silence driver_0 True 48000 0
       (s\<lparr>trace := trace s @ [Callback 0 0, Writef True [] 0 0]\<rparr>)"
proof -
  have ub: "(if 48000 - 0 < m_nBufferSize driver_0 then int_of_unsigned (48000 - 0)
             else int_of_unsigned (m_nBufferSize driver_0)) = 0"
    by (simp add: driver_0_def int_of_unsigned_def)
  have u0: "unsigned_of_int 0 = 0" by (simp add: unsigned_of_int_def)
  have fn: "(0 + 0) mod 2 ^ 32 = (0::nat)" by simp
  have w: "write_chunk silence True [] 0 (emit (Callback 0 0) s) =
      s\<lparr>trace := trace s @ [Callback 0 0, Writef True [] 0 0]\<rparr>"
    using assms by (simp add: write_chunk_def silence_def emit_def Let_def)
  have lt: "(0::nat) < 48000" by simp
  show ?thesis
    by (simp only: chunk_loop_upto_unf [OF lt] Let_def ub u0 fn pull_upto_silence run.case
        interleave_nothing option.case emit_simps assms w)
qed

lemma run_zero_buffer:
  "thread_upto 2 silence driver_0 song_A () () =
     Running
       \<lparr>world = (), sink = (), pData = [],
        trace = [Progress 0, InfoLog ''DiskWriterDriver thread start'', Play,
                 Open ''song.wav'' \<lparr>samplerate = 48000, channels = 2,
                                   format = SF_FORMAT_WAV OR SF_FORMAT_PCM_16\<rparr> True,
                 Callback 0 0, Writef True [] 0 0, Callback 0 0, Writef True [] 0 0]\<rparr>"
proof -
  define s0 :: "(unit, unit) state" where "s0 = \<lparr>world = (), sink = (), pData = [],
     trace = [Progress 0, InfoLog ''DiskWriterDriver thread start'', Play,
              Open ''song.wav'' \<lparr>samplerate = 48000, channels = 2,
                                format = SF_FORMAT_WAV OR SF_FORMAT_PCM_16\<rparr> True]\<rparr>"
  define s2 where "s2 = s0\<lparr>trace := trace s0 @
      [Callback 0 0, Writef True [] 0 0, Callback 0 0, Writef True [] 0 0]\<rparr>"
  have two: "(2::nat) = Suc (Suc 0)" by simp
  have "chunk_loop_upto 2 2 silence driver_0 True 48000 0 s0 =
      chunk_loop_upto (Suc (Suc 0)) (Suc (Suc 0)) silence driver_0 True 48000 0 s0"
    by (simp only: two)
  also have "\<dots> = chunk_loop_upto (Suc (Suc 0)) (Suc 0) silence driver_0 True 48000 0
      (s0\<lparr>trace := trace s0 @ [Callback 0 0, Writef True [] 0 0]\<rparr>)"
    by (rule zero_round) (simp add: s0_def)
  also have "\<dots> = chunk_loop_upto (Suc (Suc 0)) 0 silence driver_0 True 48000 0 s2"
    unfolding s2_def by (subst zero_round) (simp_all add: s0_def)
  also have "\<dots> = Running s2" by simp
  finally have ch: "chunk_loop_upto 2 2 silence driver_0 True 48000 0 s0 = Running s2" .
  have p: "0 < length (getPatternGroupVector song_A)" by (simp add: scene_A)
  have col: "column_loop_upto 2 silence driver_0 song_A True 0 s0 = Running s2"
    by (simp only: column_loop_upto_unf [OF p] frames_0 option.case ch run.case)
  have k: "sf_format_check silence (soundInfo_of driver_0)" by (simp add: silence_def)
  have o: "sf_open silence (m_sFilename driver_0) (soundInfo_of driver_0) () = (True, ())"
    by (simp add: silence_def)
  have s: "\<lparr>world = play silence (), sink = (),
       pData = replicate ((m_nBufferSize driver_0 * 2) mod 2 ^ 32) 0,
       trace = [Progress 0, InfoLog ''DiskWriterDriver thread start'', Play,
                Open (m_sFilename driver_0) (soundInfo_of driver_0) True]\<rparr> = s0"
    by (simp add: s0_def soundInfo_0) (simp add: driver_0_def)
  show ?thesis
    unfolding thread_upto_unfold [OF k o] s col
    by (simp add: s2_def s0_def)
qed

lemma run_still:
  "thread_upto fuel silence driver_s song_still () () =
     Undefined
       \<lparr>world = (), sink = (), pData = [0, 0, 0, 0],
        trace = [Progress 0, InfoLog ''DiskWriterDriver thread start'', Play,
                 Open ''song.wav'' \<lparr>samplerate = 48, channels = 2,
                                   format = SF_FORMAT_WAV OR SF_FORMAT_PCM_16\<rparr> True]\<rparr>"
proof -
  define s0 :: "(unit, unit) state" where "s0 = \<lparr>world = (), sink = (), pData = [0, 0, 0, 0],
     trace = [Progress 0, InfoLog ''DiskWriterDriver thread start'', Play,
              Open ''song.wav'' \<lparr>samplerate = 48, channels = 2,
                                format = SF_FORMAT_WAV OR SF_FORMAT_PCM_16\<rparr> True]\<rparr>"
  have p: "0 < length (getPatternGroupVector song_still)" by (simp add: song_still_def song_s_def)
  have f: "column_frames silence driver_s song_still 0 = None"
    by (simp add: column_frames_def computeTickSize_def song_still_def song_s_def Let_def)
  have col: "column_loop_upto fuel silence driver_s song_still True 0 s0 = Undefined s0"
    by (simp only: column_loop_upto_unf [OF p] f option.case)
  have k: "sf_format_check silence (soundInfo_of driver_s)" by (simp add: silence_def)
  have o: "sf_open silence (m_sFilename driver_s) (soundInfo_of driver_s) () = (True, ())"
    by (simp add: silence_def)
  have r: "replicate 4 (0::real) = [0, 0, 0, 0]" by (simp add: numeral_eq_Suc)
  have "(m_nBufferSize driver_s * 2) mod 2 ^ 32 = 4" by (simp add: driver_s_def)
  then have "replicate ((m_nBufferSize driver_s * 2) mod 2 ^ 32) (0::real) = [0, 0, 0, 0]"
    using r by (simp only:)
  then have s: "\<lparr>world = play silence (), sink = (),
       pData = replicate ((m_nBufferSize driver_s * 2) mod 2 ^ 32) 0,
       trace = [Progress 0, InfoLog ''DiskWriterDriver thread start'', Play,
                Open (m_sFilename driver_s) (soundInfo_of driver_s) True]\<rparr> = s0"
    by (simp only: s0_def soundInfo_s) (simp add: driver_s_def)
  show ?thesis
    unfolding thread_upto_unfold [OF k o] s col
    by (simp add: s0_def)
qed


subsection \<open>The samples of a chunk\<close>

text \<open>
  C4. When the array holds two samples for each of the \<open>n\<close> frames of a chunk, the
  interleaving loop returns, with the clamped left sample of frame \<open>i\<close> at index \<open>2 * i\<close>
  and the clamped right one at \<open>2 * i + 1\<close>, and leaves the rest of the array as it was.
  Clamping maps what is above 1 to 1 and what is below -1 to -1 and keeps everything else,
  1 and -1 included; it is idempotent. The loop has no state, and the sample depth of the
  driver has no part in it: the loop over the columns is the same function for every
  depth.
\<close>

theorem clipping_and_interleaving:
  assumes "2 * n \<le> length a" and "2 * n \<le> 2 ^ 32"
  shows "(\<exists>out. interleave pData_L pData_R n 0 a = Some out \<and> length out = length a \<and>
            (\<forall>i < n. out ! (2 * i) = clamp (pData_L i) \<and> out ! (2 * i + 1) = clamp (pData_R i)) \<and>
            (\<forall>k < length a. 2 * n \<le> k \<longrightarrow> out ! k = a ! k)) \<and>
         (\<forall>x. clamp x = (if 1 < x then 1 else if x < - 1 then - 1 else x)) \<and>
         clamp 1 = 1 \<and> clamp (- 1) = - 1 \<and> (\<forall>x. clamp (clamp x) = clamp x) \<and>
         (\<forall>depth. column_loop ext (pDriver\<lparr>m_nSampleDepth := depth\<rparr>) pSong m_file position s =
                   column_loop ext pDriver pSong m_file position s)"
proof -
  from interleave_inv [OF assms, of 0 pData_L pData_R]
  have "\<exists>out. interleave pData_L pData_R n 0 a = Some out \<and> length out = length a \<and>
            (\<forall>i < n. out ! (2 * i) = clamp (pData_L i) \<and> out ! (2 * i + 1) = clamp (pData_R i)) \<and>
            (\<forall>k < length a. 2 * n \<le> k \<longrightarrow> out ! k = a ! k)"
    by auto
  moreover have "\<forall>x. clamp x = (if 1 < x then 1 else if x < - 1 then - 1 else x)"
    by (simp add: clamp_def max_def min_def)
  moreover have "clamp 1 = 1" "clamp (- 1) = - 1" "\<forall>x. clamp (clamp x) = clamp x"
    by (simp_all add: clamp_def max_def min_def)
  ultimately show ?thesis using column_loop_depth by blast
qed

theorem clipping_and_interleaving_witness:
  "2 * 2 \<le> length [0, 0, 0, 0 :: real] \<and> 2 * 2 \<le> (2 ^ 32 :: nat) \<and>
   (\<exists>out. interleave (\<lambda>i. 2) (\<lambda>i. - 1 / 2) 2 0 [0, 0, 0, 0] = Some out \<and>
       out ! 0 = 1 \<and> out ! 1 = - 1 / 2 \<and> out ! 2 = 1 \<and> out ! 3 = - 1 / 2)"
proof -
  have h: "2 * 2 \<le> length [0, 0, 0, 0 :: real]" "2 * 2 \<le> (2 ^ 32 :: nat)" by simp_all
  from clipping_and_interleaving [OF h, of "\<lambda>i. 2" "\<lambda>i. - 1 / 2"]
  obtain out where o: "interleave (\<lambda>i. 2) (\<lambda>i. - 1 / 2) 2 0 [0, 0, 0, 0] = Some out"
    "\<forall>i < 2. out ! (2 * i) = clamp 2 \<and> out ! (2 * i + 1) = clamp (- 1 / 2)" by blast
  from o(2) [rule_format, of 0] o(2) [rule_format, of 1]
  have "out ! 0 = 1 \<and> out ! 1 = - 1 / 2 \<and> out ! 2 = 1 \<and> out ! 3 = - 1 / 2"
    by (simp add: clamp_def numeral_3_eq_3)
  with o(1) h show ?thesis by blast
qed

subsection \<open>A sound file that cannot be opened or written\<close>

lemma no_file_simps:
  "m_processCallback no_file = (\<lambda>n w. (0, w))" "m_pOut_L no_file = (\<lambda>w i. 0)"
  "m_pOut_R no_file = (\<lambda>w i. 0)" "play no_file = (\<lambda>w. w)"
  "sf_format_check no_file = (\<lambda>info. True)" "sf_open no_file = (\<lambda>name info f. (False, f))"
  "sf_writef_float no_file = (\<lambda>h a n f. (if h then n else 0, f))"
  "sf_close no_file = (\<lambda>h f. f)" "MAX_NOTES no_file = 192"
  by (simp_all add: no_file_def silence_def)

lemma pull_no_file: "pull no_file n s = Some (emit (Callback n 0) s)"
  by (subst pull.simps) (simp add: no_file_simps Let_def)

lemma frames_s: "column_frames no_file driver_s song_s 0 = Some 3"
proof -
  have "column_frames no_file driver_s song_s 0 = Some (float_frames no_file driver_s song_s 0)"
    by (rule column_frames_eq)
      (simp_all add: song_s_def driver_s_def group_length_def group_ticksize_def f32_numeral f32_one)
  moreover have "float_frames no_file driver_s song_s 0 = 3"
    by (simp add: float_frames_def song_s_def driver_s_def group_length_def group_ticksize_def
        f32_numeral f32_one)
  ultimately show ?thesis by simp
qed

lemma interleave_silence_2:
  "interleave (\<lambda>i. 0) (\<lambda>i. 0) 2 0 [0, 0, 0, 0] = Some [0, 0, 0, 0]"
  by (simp add: interleave.simps store_def)

lemma interleave_silence_1:
  "interleave (\<lambda>i. 0) (\<lambda>i. 0) (Suc 0) 0 [0, 0, 0, 0] = Some [0, 0, 0, 0]"
  by (simp add: interleave.simps store_def)

lemma thread_unfold:
  assumes "sf_format_check ext
      \<lparr>samplerate = int_of_unsigned (m_nSampleRate d), channels = 2,
       format = soundInfo_format (m_sFilename d) (m_nSampleDepth d)\<rparr>"
    and "sf_open ext (m_sFilename d)
      \<lparr>samplerate = int_of_unsigned (m_nSampleRate d), channels = 2,
       format = soundInfo_format (m_sFilename d) (m_nSampleDepth d)\<rparr> f = (h, f1)"
  shows "diskWriterDriver_thread ext d g w f =
      (case column_loop ext d g h 0
              \<lparr>world = play ext w, sink = f1,
               pData = replicate ((m_nBufferSize d * 2) mod 2 ^ 32) 0,
               trace = [Progress 0, InfoLog ''DiskWriterDriver thread start'', Play,
                        Open (m_sFilename d)
                          \<lparr>samplerate = int_of_unsigned (m_nSampleRate d), channels = 2,
                           format = soundInfo_format (m_sFilename d) (m_nSampleDepth d)\<rparr> h]\<rparr> of
         None \<Rightarrow> None
       | Some t \<Rightarrow> Some (Finished, emit (InfoLog ''DiskWriterDriver thread end'')
            (emit (Close h) (t\<lparr>sink := sf_close ext h (sink t)\<rparr>))))"
  using assms
  by (simp add: diskWriterDriver_thread_def Let_def emit_def split: option.split)

lemma chunk_loop_iteration:
  assumes "0 < m_nBufferSize d" and "m_nBufferSize d < 2 ^ 31" and "frameNumber < F" and "F < 2 ^ 32"
    and "c = min (m_nBufferSize d) (F - frameNumber)" and "frameNumber' = frameNumber + c"
    and "pull ext c s = Some s1"
    and "interleave (m_pOut_L ext (world s1)) (m_pOut_R ext (world s1)) c 0 (pData s1) = Some a"
    and "u = int c"
  shows "chunk_loop ext d m F frameNumber s =
     chunk_loop ext d m F frameNumber' (write_chunk ext m a u s1)"
  using chunk_loop_step [OF assms(1-4), of ext m s] assms(5-9) by simp

lemma chunks_s:
  assumes "pData s = [0, 0, 0, 0]"
  shows "chunk_loop no_file driver_s False 3 0 s =
    Some (s\<lparr>trace := trace s @
      [Callback 2 0, Writef False [0, 0, 0, 0] 2 0, ErrorLog ''Error during sf_write_float'',
       Callback 1 0, Writef False [0, 0] 1 0, ErrorLog ''Error during sf_write_float'']\<rparr>)"
proof -
  define s1 where "s1 = write_chunk no_file False [0, 0, 0, 0] 2 (emit (Callback 2 0) s)"
  have 1: "chunk_loop no_file driver_s False 3 0 s = chunk_loop no_file driver_s False 3 2 s1"
    unfolding s1_def
    by (rule chunk_loop_iteration [where c = 2, OF _ _ _ _ _ _ pull_no_file])
      (simp_all add: driver_s_def no_file_simps interleave_silence_2 assms)
  define s2 where "s2 = write_chunk no_file False [0, 0, 0, 0] 1 (emit (Callback 1 0) s1)"
  have p1: "pData s1 = [0, 0, 0, 0]" by (simp add: s1_def write_chunk_simps)
  have 2: "chunk_loop no_file driver_s False 3 2 s1 = chunk_loop no_file driver_s False 3 3 s2"
    unfolding s2_def
    by (rule chunk_loop_iteration [where c = 1, OF _ _ _ _ _ _ pull_no_file])
      (simp_all add: driver_s_def no_file_simps interleave_silence_1 p1)
  have 3: "chunk_loop no_file driver_s False 3 3 s2 = Some s2"
    by (rule chunk_loop_done) simp
  have "s2 = s\<lparr>trace := trace s @
      [Callback 2 0, Writef False [0, 0, 0, 0] 2 0, ErrorLog ''Error during sf_write_float'',
       Callback 1 0, Writef False [0, 0] 1 0, ErrorLog ''Error during sf_write_float'']\<rparr>"
    using assms by (simp add: s2_def s1_def write_chunk_def no_file_simps emit_def)
  with 1 2 3 show ?thesis by simp
qed

lemma info_s:
  "\<lparr>samplerate = int_of_unsigned (m_nSampleRate driver_s), channels = 2,
    format = soundInfo_format (m_sFilename driver_s) (m_nSampleDepth driver_s)\<rparr> =
   \<lparr>samplerate = 48, channels = 2, format = SF_FORMAT_WAV OR SF_FORMAT_PCM_16\<rparr>"
  by (simp add: driver_s_def int_of_unsigned_def soundInfo_format_def endsWith_def sf_constants)

lemma run_no_file:
  "diskWriterDriver_thread no_file driver_s song_s () () =
     Some (Finished,
       \<lparr>world = (), sink = (), pData = [0, 0, 0, 0],
        trace = [Progress 0, InfoLog ''DiskWriterDriver thread start'', Play,
                 Open ''song.wav'' \<lparr>samplerate = 48, channels = 2,
                                   format = SF_FORMAT_WAV OR SF_FORMAT_PCM_16\<rparr> False,
                 Callback 2 0, Writef False [0, 0, 0, 0] 2 0,
                 ErrorLog ''Error during sf_write_float'',
                 Callback 1 0, Writef False [0, 0] 1 0,
                 ErrorLog ''Error during sf_write_float'',
                 Progress 100, Close False, InfoLog ''DiskWriterDriver thread end'']\<rparr>)"
proof -
  have n: "length (getPatternGroupVector song_s) = 1" by (simp add: song_s_def)
  have pc: "\<lfloor>fPercent 0 1\<rfloor> = 100" using fPercent_last [of 1] by simp
  define s0 :: "(unit, unit) state" where "s0 = \<lparr>world = (), sink = (), pData = [0, 0, 0, 0],
     trace = [Progress 0, InfoLog ''DiskWriterDriver thread start'', Play,
              Open ''song.wav'' \<lparr>samplerate = 48, channels = 2,
                                format = SF_FORMAT_WAV OR SF_FORMAT_PCM_16\<rparr> False]\<rparr>"
  define s1 where "s1 = s0\<lparr>trace := trace s0 @
      [Callback 2 0, Writef False [0, 0, 0, 0] 2 0, ErrorLog ''Error during sf_write_float'',
       Callback 1 0, Writef False [0, 0] 1 0, ErrorLog ''Error during sf_write_float'']\<rparr>"
  have ch: "chunk_loop no_file driver_s False 3 0 s0 = Some s1"
    unfolding s1_def by (rule chunks_s) (simp add: s0_def)
  have "column_loop no_file driver_s song_s False 0 s0 =
      column_loop no_file driver_s song_s False (0 + 1)
        (emit (Progress \<lfloor>fPercent 0 (length (getPatternGroupVector song_s))\<rfloor>) s1)"
    by (rule column_loop_step [OF _ frames_s ch]) (simp add: n)
  also have "\<dots> = Some (emit (Progress \<lfloor>fPercent 0 (length (getPatternGroupVector song_s))\<rfloor>) s1)"
    by (rule column_loop_done) (simp add: n)
  also have "\<dots> = Some (emit (Progress 100) s1)"
    by (simp only: n pc)
  finally have c: "column_loop no_file driver_s song_s False 0 s0 = Some (emit (Progress 100) s1)" .
  have o: "sf_open no_file (m_sFilename driver_s)
      \<lparr>samplerate = int_of_unsigned (m_nSampleRate driver_s), channels = 2,
       format = soundInfo_format (m_sFilename driver_s) (m_nSampleDepth driver_s)\<rparr> () = (False, ())"
    by (simp add: no_file_simps)
  have k: "sf_format_check no_file
      \<lparr>samplerate = int_of_unsigned (m_nSampleRate driver_s), channels = 2,
       format = soundInfo_format (m_sFilename driver_s) (m_nSampleDepth driver_s)\<rparr>"
    by (simp add: no_file_simps)
  have st: "\<lparr>world = play no_file (), sink = (),
            pData = replicate ((m_nBufferSize driver_s * 2) mod 2 ^ 32) 0,
            trace = [Progress 0, InfoLog ''DiskWriterDriver thread start'', Play,
                     Open (m_sFilename driver_s)
                       \<lparr>samplerate = int_of_unsigned (m_nSampleRate driver_s), channels = 2,
                        format = soundInfo_format (m_sFilename driver_s) (m_nSampleDepth driver_s)\<rparr>
                       False]\<rparr> = s0"
  proof -
    have "(m_nBufferSize driver_s * 2) mod 2 ^ 32 = 4" by (simp add: driver_s_def)
    moreover have "replicate 4 (0::real) = [0, 0, 0, 0]" by (simp add: numeral_eq_Suc)
    moreover have "m_sFilename driver_s = ''song.wav''" by (simp add: driver_s_def)
    ultimately show ?thesis unfolding info_s by (simp add: s0_def no_file_simps)
  qed
  have "diskWriterDriver_thread no_file driver_s song_s () () =
     Some (Finished, emit (InfoLog ''DiskWriterDriver thread end'')
            (emit (Close False) ((emit (Progress 100) s1)\<lparr>sink := sf_close no_file False (sink (emit (Progress 100) s1))\<rparr>)))"
    unfolding thread_unfold [OF k o] st c by simp
  also have "\<dots> = Some (Finished,
       \<lparr>world = (), sink = (), pData = [0, 0, 0, 0],
        trace = [Progress 0, InfoLog ''DiskWriterDriver thread start'', Play,
                 Open ''song.wav'' \<lparr>samplerate = 48, channels = 2,
                                   format = SF_FORMAT_WAV OR SF_FORMAT_PCM_16\<rparr> False,
                 Callback 2 0, Writef False [0, 0, 0, 0] 2 0,
                 ErrorLog ''Error during sf_write_float'',
                 Callback 1 0, Writef False [0, 0] 1 0,
                 ErrorLog ''Error during sf_write_float'',
                 Progress 100, Close False, InfoLog ''DiskWriterDriver thread end'']\<rparr>)"
    by (simp add: s1_def s0_def emit_def)
  finally show ?thesis .
qed


text \<open>
  C7 as stated fails: with a file that cannot be opened, the thread goes on to pull both
  chunks of the column and to pass them to \<^verbatim>\<open>sf_writef_float\<close> with the null handle, logs
  the two failed writes, pushes the progress value 100 and finishes through its normal
  exit.
\<close>

theorem failed_open_counterexample:
  "\<not> fst (sf_open no_file ''song.wav''
        \<lparr>samplerate = 48, channels = 2, format = SF_FORMAT_WAV OR SF_FORMAT_PCM_16\<rparr> ()) \<and>
   diskWriterDriver_thread no_file driver_s song_s () () =
     Some (Finished,
       \<lparr>world = (), sink = (), pData = [0, 0, 0, 0],
        trace = [Progress 0, InfoLog ''DiskWriterDriver thread start'', Play,
                 Open ''song.wav'' \<lparr>samplerate = 48, channels = 2,
                                   format = SF_FORMAT_WAV OR SF_FORMAT_PCM_16\<rparr> False,
                 Callback 2 0, Writef False [0, 0, 0, 0] 2 0,
                 ErrorLog ''Error during sf_write_float'',
                 Callback 1 0, Writef False [0, 0] 1 0,
                 ErrorLog ''Error during sf_write_float'',
                 Progress 100, Close False, InfoLog ''DiskWriterDriver thread end'']\<rparr>)"
  using run_no_file by (simp add: no_file_simps)

lemma same_engine_open: "same_engine ext (ext\<lparr>sf_open := opn\<rparr>)"
  by (simp add: same_engine_def)

lemma same_engine_writer: "same_engine ext (ext\<lparr>sf_writef_float := writer\<rparr>)"
  by (simp add: same_engine_def)

lemma no_write_to_a_file:
  assumes "\<forall>e \<in> set tr. column_effect False e"
  shows "Writef True a n res \<notin> set tr"
proof
  assume "Writef True a n res \<in> set tr"
  with assms have "column_effect False (Writef True a n res)" by blast
  then show False by simp
qed

text \<open>
  C7, as the code has it. The result of \<^verbatim>\<open>sf_open\<close> is not checked. When it is null, a run
  that returns does so through the normal exit (the format check having passed), no write
  is made with a handle that is not null, and the run is the one that any other result of
  \<^verbatim>\<open>sf_open\<close> gives, up to the handles, the results of the writes and the log lines about
  them: the same chunks are pulled, clipped and passed to \<^verbatim>\<open>sf_writef_float\<close>, and the same
  progress values are pushed.
\<close>

theorem failed_open_is_ignored:
  assumes "diskWriterDriver_thread ext pDriver pSong w f = Some (x, t)"
    and "\<not> fst (sf_open ext (m_sFilename pDriver)
      \<lparr>samplerate = int_of_unsigned (m_nSampleRate pDriver), channels = 2,
       format = soundInfo_format (m_sFilename pDriver) (m_nSampleDepth pDriver)\<rparr> f)"
  shows "(x = Finished \<longleftrightarrow>
            sf_format_check ext
              \<lparr>samplerate = int_of_unsigned (m_nSampleRate pDriver), channels = 2,
               format = soundInfo_format (m_sFilename pDriver) (m_nSampleDepth pDriver)\<rparr>) \<and>
         (\<forall>a n res. Writef True a n res \<notin> set (trace t)) \<and>
         (\<forall>opn. \<exists>t'. diskWriterDriver_thread (ext\<lparr>sf_open := opn\<rparr>) pDriver pSong w f = Some (x, t') \<and>
                      sim t t')"
proof -
  define info where "info = \<lparr>samplerate = int_of_unsigned (m_nSampleRate pDriver), channels = 2,
       format = soundInfo_format (m_sFilename pDriver) (m_nSampleDepth pDriver)\<rparr>"
  note sh = thread_shape [OF assms(1), folded info_def]
  have 1: "x = Finished \<longleftrightarrow> sf_format_check ext info" using sh by auto
  have 2: "\<forall>a n res. Writef True a n res \<notin> set (trace t)"
  proof (intro allI)
    fix a n res
    from sh show "Writef True a n res \<notin> set (trace t)"
    proof
      assume "\<not> sf_format_check ext info \<and> x = SoundInfoError \<and>
           trace t = [Progress 0, InfoLog ''DiskWriterDriver thread start'', Play,
                      ErrorLog ''Error in soundInfo'']"
      then show ?thesis by simp
    next
      assume "sf_format_check ext info \<and> x = Finished \<and>
           (\<exists>tr. trace t = [Progress 0, InfoLog ''DiskWriterDriver thread start'', Play,
                      Open (m_sFilename pDriver) info (fst (sf_open ext (m_sFilename pDriver) info f))] @ tr @
                     [Close (fst (sf_open ext (m_sFilename pDriver) info f)), InfoLog ''DiskWriterDriver thread end''] \<and>
                 (\<forall>e \<in> set tr. column_effect (fst (sf_open ext (m_sFilename pDriver) info f)) e))"
      then obtain tr where tr: "trace t = [Progress 0, InfoLog ''DiskWriterDriver thread start'', Play,
                      Open (m_sFilename pDriver) info False] @ tr @
                     [Close False, InfoLog ''DiskWriterDriver thread end'']"
        "\<forall>e \<in> set tr. column_effect False e"
        using assms(2) by (auto simp add: info_def)
      from no_write_to_a_file [OF tr(2)] show ?thesis by (simp add: tr(1))
    qed
  qed
  have 3: "\<forall>opn. \<exists>t'. diskWriterDriver_thread (ext\<lparr>sf_open := opn\<rparr>) pDriver pSong w f = Some (x, t') \<and> sim t t'"
    using thread_sim [OF same_engine_open assms(1)] by blast
  from 1 2 3 show ?thesis unfolding info_def by blast
qed

theorem failed_open_is_ignored_witness:
  "\<not> fst (sf_open no_file (m_sFilename driver_s)
      \<lparr>samplerate = int_of_unsigned (m_nSampleRate driver_s), channels = 2,
       format = soundInfo_format (m_sFilename driver_s) (m_nSampleDepth driver_s)\<rparr> ()) \<and>
   (\<exists>t. diskWriterDriver_thread no_file driver_s song_s () () = Some (Finished, t) \<and>
        (\<forall>a n res. Writef True a n res \<notin> set (trace t)) \<and>
        (\<exists>t'. diskWriterDriver_thread (no_file\<lparr>sf_open := (\<lambda>name info f. (True, f))\<rparr>)
                 driver_s song_s () () = Some (Finished, t') \<and> sim t t'))"
proof -
  have o: "\<not> fst (sf_open no_file (m_sFilename driver_s)
      \<lparr>samplerate = int_of_unsigned (m_nSampleRate driver_s), channels = 2,
       format = soundInfo_format (m_sFilename driver_s) (m_nSampleDepth driver_s)\<rparr> ())"
    by (simp add: no_file_simps)
  from failed_open_is_ignored [OF run_no_file o] o run_no_file show ?thesis by blast
qed

text \<open>
  C8. Whatever \<^verbatim>\<open>sf_writef_float\<close> returns, a run that returns is, up to the results of the
  writes and the log lines about them, the run with any other behaviour of the writes, in
  particular with complete ones: same exit, same calls of the callback, same data passed
  to the writes, same progress values, same state of the engine. A write appends its call
  to the trace, followed by the error line exactly when the result is not the number of
  frames, and changes nothing else but the state of the sound file.
\<close>

theorem short_write_is_ignored:
  assumes "diskWriterDriver_thread ext pDriver pSong w f = Some (x, t)"
  shows "(\<forall>writer. \<exists>t'. diskWriterDriver_thread (ext\<lparr>sf_writef_float := writer\<rparr>) pDriver pSong w f =
                            Some (x, t') \<and> sim t t') \<and>
         (\<forall>m_file a usedBuffer s.
            trace (write_chunk ext m_file a usedBuffer s) =
              trace s @
              Writef m_file (take (2 * nat usedBuffer) a) usedBuffer
                (fst (sf_writef_float ext m_file (take (2 * nat usedBuffer) a) usedBuffer (sink s))) #
              (if fst (sf_writef_float ext m_file (take (2 * nat usedBuffer) a) usedBuffer (sink s)) = usedBuffer
               then [] else [ErrorLog ''Error during sf_write_float'']) \<and>
            world (write_chunk ext m_file a usedBuffer s) = world s \<and>
            pData (write_chunk ext m_file a usedBuffer s) = a)"
proof -
  have "\<forall>writer. \<exists>t'. diskWriterDriver_thread (ext\<lparr>sf_writef_float := writer\<rparr>) pDriver pSong w f =
                            Some (x, t') \<and> sim t t'"
    using thread_sim [OF same_engine_writer assms] by blast
  moreover have "\<forall>m_file a usedBuffer s.
            trace (write_chunk ext m_file a usedBuffer s) =
              trace s @
              Writef m_file (take (2 * nat usedBuffer) a) usedBuffer
                (fst (sf_writef_float ext m_file (take (2 * nat usedBuffer) a) usedBuffer (sink s))) #
              (if fst (sf_writef_float ext m_file (take (2 * nat usedBuffer) a) usedBuffer (sink s)) = usedBuffer
               then [] else [ErrorLog ''Error during sf_write_float'']) \<and>
            world (write_chunk ext m_file a usedBuffer s) = world s \<and>
            pData (write_chunk ext m_file a usedBuffer s) = a"
    by (simp add: write_chunk_def Let_def split: prod.split)
  ultimately show ?thesis by blast
qed

theorem short_write_is_ignored_witness:
  "\<exists>t. diskWriterDriver_thread no_file driver_s song_s () () = Some (Finished, t) \<and>
       Writef False [0, 0, 0, 0] 2 0 \<in> set (trace t) \<and>
       (\<exists>t'. diskWriterDriver_thread (no_file\<lparr>sf_writef_float := (\<lambda>h a n f. (n, f))\<rparr>)
                driver_s song_s () () = Some (Finished, t') \<and> sim t t')"
proof -
  from short_write_is_ignored [OF run_no_file]
  have "\<exists>t'. diskWriterDriver_thread (no_file\<lparr>sf_writef_float := (\<lambda>h a n f. (n, f))\<rparr>)
                driver_s song_s () () = Some (Finished, t') \<and>
          sim \<lparr>world = (), sink = (), pData = [0, 0, 0, 0],
        trace = [Progress 0, InfoLog ''DiskWriterDriver thread start'', Play,
                 Open ''song.wav'' \<lparr>samplerate = 48, channels = 2,
                                   format = SF_FORMAT_WAV OR SF_FORMAT_PCM_16\<rparr> False,
                 Callback 2 0, Writef False [0, 0, 0, 0] 2 0,
                 ErrorLog ''Error during sf_write_float'',
                 Callback 1 0, Writef False [0, 0] 1 0,
                 ErrorLog ''Error during sf_write_float'',
                 Progress 100, Close False, InfoLog ''DiskWriterDriver thread end'']\<rparr> t'"
    by blast
  with run_no_file show ?thesis by auto
qed

end
